theory Spec2Isabelle
  imports Main "HOL-Library.Char_ord" "HOL-Library.List_Lexorder" "HOL-Library.AList"
begin

section \<open>Characters and the string operations of the source\<close>

text \<open>
  A text is a \<open>string\<close>: a list of characters, each standing for one code point below 256
  (ASCII and the Latin-1 supplement). On this range \<open>str.lower\<close> keeps the length of a
  text, and \<open>str.isspace\<close>, the regular expression class \<open>\S\<close>, \<open>str.strip\<close> and
  \<open>str.split\<close> agree on what white space is.
\<close>

definition isspace :: "char \<Rightarrow> bool" where
  "isspace c \<longleftrightarrow> c \<in> {CHR 0x09, CHR 0x0A, CHR 0x0B, CHR 0x0C, CHR 0x0D,
       CHR 0x1C, CHR 0x1D, CHR 0x1E, CHR 0x1F, CHR 0x20, CHR 0x85, CHR 0xA0}"

definition upper_letters :: string where
  "upper_letters = ''ABCDEFGHIJKLMNOPQRSTUVWXYZ'' @
     [CHR 0xC0, CHR 0xC1, CHR 0xC2, CHR 0xC3, CHR 0xC4, CHR 0xC5, CHR 0xC6, CHR 0xC7,
      CHR 0xC8, CHR 0xC9, CHR 0xCA, CHR 0xCB, CHR 0xCC, CHR 0xCD, CHR 0xCE, CHR 0xCF,
      CHR 0xD0, CHR 0xD1, CHR 0xD2, CHR 0xD3, CHR 0xD4, CHR 0xD5, CHR 0xD6,
      CHR 0xD8, CHR 0xD9, CHR 0xDA, CHR 0xDB, CHR 0xDC, CHR 0xDD, CHR 0xDE]"

definition lower_letters :: string where
  "lower_letters = ''abcdefghijklmnopqrstuvwxyz'' @
     [CHR 0xE0, CHR 0xE1, CHR 0xE2, CHR 0xE3, CHR 0xE4, CHR 0xE5, CHR 0xE6, CHR 0xE7,
      CHR 0xE8, CHR 0xE9, CHR 0xEA, CHR 0xEB, CHR 0xEC, CHR 0xED, CHR 0xEE, CHR 0xEF,
      CHR 0xF0, CHR 0xF1, CHR 0xF2, CHR 0xF3, CHR 0xF4, CHR 0xF5, CHR 0xF6,
      CHR 0xF8, CHR 0xF9, CHR 0xFA, CHR 0xFB, CHR 0xFC, CHR 0xFD, CHR 0xFE]"

definition lower_char :: "char \<Rightarrow> char" where
  "lower_char c =
     (case map_of (zip upper_letters lower_letters) c of Some d \<Rightarrow> d | None \<Rightarrow> c)"

text \<open>\<open>str.lower()\<close>.\<close>

definition str_lower :: "string \<Rightarrow> string" where
  "str_lower s = map lower_char s"

text \<open>
  \<open>str.upper()\<close>: the sharp s (0xDF) becomes two letters. The upper-case forms of the
  micro sign (0xB5) and of y with diaeresis (0xFF) lie above code point 255; both
  characters are kept as they are, which no comparison with an ASCII text can tell apart.
\<close>

definition upper_char :: "char \<Rightarrow> string" where
  "upper_char c =
     (if c = CHR 0xDF then ''SS''
      else (case map_of (zip lower_letters upper_letters) c of Some d \<Rightarrow> [d] | None \<Rightarrow> [c]))"

definition str_upper :: "string \<Rightarrow> string" where
  "str_upper s = concat (map upper_char s)"

text \<open>\<open>str.lstrip()\<close>, \<open>str.rstrip()\<close>, \<open>str.strip()\<close> and \<open>str.rstrip(chars)\<close>.\<close>

definition str_lstrip :: "string \<Rightarrow> string" where
  "str_lstrip s = dropWhile isspace s"

definition str_rstrip :: "string \<Rightarrow> string" where
  "str_rstrip s = rev (dropWhile isspace (rev s))"

definition str_strip :: "string \<Rightarrow> string" where
  "str_strip s = str_rstrip (str_lstrip s)"

definition str_rstrip_chars :: "string \<Rightarrow> string \<Rightarrow> string" where
  "str_rstrip_chars chars s = rev (dropWhile (\<lambda>c. c \<in> set chars) (rev s))"

text \<open>\<open>s.startswith(p)\<close>.\<close>

definition str_startswith :: "string \<Rightarrow> string \<Rightarrow> bool" where
  "str_startswith p s \<longleftrightarrow> take (length p) s = p"

text \<open>\<open>hay.find(needle)\<close>: the least index of an occurrence; Python's \<open>-1\<close> is \<open>None\<close>.\<close>

fun str_find :: "string \<Rightarrow> string \<Rightarrow> nat option" where
  "str_find needle [] = (if needle = [] then Some 0 else None)"
| "str_find needle (c # cs) =
     (if str_startswith needle (c # cs) then Some 0
      else map_option Suc (str_find needle cs))"

lemma length_dropWhile_less: "length (dropWhile P xs) < Suc (length xs)"
  using length_dropWhile_le [of P xs] by simp

lemma length_dropWhile_minus: "length (dropWhile P xs) - Suc 0 < Suc (length xs)"
  using length_dropWhile_le [of P xs] by simp

text \<open>\<open>str.split()\<close> with no argument: the maximal runs of characters that are not white space.\<close>

function str_split :: "string \<Rightarrow> string list" where
  "str_split [] = []"
| "str_split (c # cs) =
     (if isspace c then str_split cs
      else (c # takeWhile (\<lambda>x. \<not> isspace x) cs) # str_split (dropWhile (\<lambda>x. \<not> isspace x) cs))"
  by pat_completeness auto
termination
  by (relation "measure length") (simp_all add: length_dropWhile_less)

text \<open>\<open>s.split(sep)\<close> for a separator of one character.\<close>

fun str_split_on :: "char \<Rightarrow> string \<Rightarrow> string list" where
  "str_split_on sep [] = [[]]"
| "str_split_on sep (c # cs) =
     (if c = sep then [] # str_split_on sep cs
      else (case str_split_on sep cs of [] \<Rightarrow> [[c]] | l # ls \<Rightarrow> (c # l) # ls))"

text \<open>
  \<open>str.splitlines()\<close>: the line boundaries below code point 256 are LF, CR, CR LF (one
  boundary), VT, FF, FS, GS, RS and NEL; the boundaries are not part of the lines, and a
  boundary at the end of the text opens no further line.
\<close>

definition is_linebreak :: "char \<Rightarrow> bool" where
  "is_linebreak c \<longleftrightarrow> c \<in> {CHR 0x0A, CHR 0x0D, CHR 0x0B, CHR 0x0C,
       CHR 0x1C, CHR 0x1D, CHR 0x1E, CHR 0x85}"

function str_splitlines :: "string \<Rightarrow> string list" where
  "str_splitlines [] = []"
| "str_splitlines (c # cs) =
     (if is_linebreak c
      then [] # str_splitlines (if c = CHR 0x0D \<and> take 1 cs = [CHR 0x0A] then tl cs else cs)
      else (c # takeWhile (\<lambda>x. \<not> is_linebreak x) cs) #
           (case dropWhile (\<lambda>x. \<not> is_linebreak x) cs of
              [] \<Rightarrow> []
            | b # bs \<Rightarrow>
                str_splitlines (if b = CHR 0x0D \<and> take 1 bs = [CHR 0x0A] then tl bs else bs)))"
  by pat_completeness auto
termination
proof (relation "measure length", goal_cases)
  case 1
  show ?case by simp
next
  case (2 c cs)
  show ?case by (auto simp: less_Suc_eq_le)
next
  case (3 c cs b bs)
  have "length (b # bs) \<le> length cs"
    using 3 length_dropWhile_le [of "\<lambda>x. \<not> is_linebreak x" cs] by simp
  then show ?case by (auto simp: less_Suc_eq_le)
qed

text \<open>
  The lines a text file yields when iterated or read with \<open>readline\<close>: each line keeps
  its final LF. The text is the one Python's text mode delivers, so every line boundary
  of the file is an LF already.
\<close>

fun readlines :: "string \<Rightarrow> string list" where
  "readlines [] = []"
| "readlines (c # cs) =
     (if c = CHR 0x0A then [c] # readlines cs
      else (case readlines cs of [] \<Rightarrow> [[c]] | l # ls \<Rightarrow> (c # l) # ls))"

section \<open>Comment stripper and tokenizer\<close>

text \<open>
  \<open>re.sub(COMMENT_RE, "", text)\<close> with \<open>COMMENT_RE = \[.*?\]\<close> (DOTALL): scanning from
  the left, an opening bracket that has a closing bracket somewhere after it is removed
  together with everything up to the first such closing bracket; any other character is
  kept.
\<close>

function strip_nexus_comments :: "string \<Rightarrow> string" where
  "strip_nexus_comments [] = []"
| "strip_nexus_comments (c # cs) =
     (if c = CHR ''['' \<and> CHR '']'' \<in> set cs
      then strip_nexus_comments (tl (dropWhile (\<lambda>x. x \<noteq> CHR '']'') cs))
      else c # strip_nexus_comments cs)"
  by pat_completeness auto
termination
  by (relation "measure length") (simp_all add: length_dropWhile_minus)

text \<open>
  \<open>TOKEN_RE.finditer\<close> with \<open>TOKEN_RE = '([^']*)'|"([^"]*)"|(\S+)\<close>: at each position
  the alternatives are tried in this order. A quote that is closed later gives the text
  between the two quotes (group 1 or 2); otherwise a character that is not white space
  starts a maximal run of such characters (group 3), quotes included; white space is
  passed over. The token is the group that took part in the match.
\<close>

function token_matches :: "string \<Rightarrow> string list" where
  "token_matches [] = []"
| "token_matches (c # cs) =
     (if c = CHR 0x27 \<and> CHR 0x27 \<in> set cs
      then takeWhile (\<lambda>x. x \<noteq> CHR 0x27) cs #
           token_matches (tl (dropWhile (\<lambda>x. x \<noteq> CHR 0x27) cs))
      else if c = CHR 0x22 \<and> CHR 0x22 \<in> set cs
      then takeWhile (\<lambda>x. x \<noteq> CHR 0x22) cs #
           token_matches (tl (dropWhile (\<lambda>x. x \<noteq> CHR 0x22) cs))
      else if \<not> isspace c
      then (c # takeWhile (\<lambda>x. \<not> isspace x) cs) #
           token_matches (dropWhile (\<lambda>x. \<not> isspace x) cs)
      else token_matches cs)"
  by pat_completeness auto
termination
  by (relation "measure length") (simp_all add: length_dropWhile_minus length_dropWhile_less)

definition tokenize :: "string \<Rightarrow> string list" where
  "tokenize line = token_matches (str_strip line)"

section \<open>NEXUS label extraction\<close>

text \<open>
  \<open>re.sub(r"(?i)^taxlabels", "", sub, count=1)\<close>: a leading keyword, in any case, is
  removed.
\<close>

definition remove_taxlabels :: "string \<Rightarrow> string" where
  "remove_taxlabels sub =
     (if str_lower (take (length ''taxlabels'') sub) = ''taxlabels''
      then drop (length ''taxlabels'') sub else sub)"

definition parse_taxlabels_block :: "string \<Rightarrow> string list" where
  "parse_taxlabels_block text =
     (case str_find ''taxlabels'' (str_lower text) of
        None \<Rightarrow> []
      | Some idx \<Rightarrow>
          (let sub = drop idx text
           in if CHR '';'' \<notin> set sub then []
              else tokenize (str_strip (remove_taxlabels (takeWhile (\<lambda>c. c \<noteq> CHR '';'') sub)))))"

definition matrix_keywords :: "string list" where
  "matrix_keywords = [''matrix'', ''format'', ''dimensions'', ''end'', ''begin'']"

text \<open>The loop over the lines of the MATRIX span, \<open>labels\<close> being the list built so far.\<close>

fun matrix_rows :: "string list \<Rightarrow> string list \<Rightarrow> string list" where
  "matrix_rows [] labels = labels"
| "matrix_rows (raw # rest) labels =
     (let line = str_strip raw
      in if line = [] then matrix_rows rest labels
         else if list_ex (\<lambda>k. str_startswith k (str_lower line)) matrix_keywords
         then matrix_rows rest labels
         else (case tokenize line of
                 [] \<Rightarrow> matrix_rows rest labels
               | tok # _ \<Rightarrow> matrix_rows rest (labels @ [tok])))"

definition parse_matrix_block :: "string \<Rightarrow> string list" where
  "parse_matrix_block text =
     (case str_find ''matrix'' (str_lower text) of
        None \<Rightarrow> []
      | Some midx \<Rightarrow>
          (let sub = drop (midx + length ''matrix'') text;
               sub = (if CHR '';'' \<in> set sub then takeWhile (\<lambda>c. c \<noteq> CHR '';'') sub else sub)
           in matrix_rows (str_splitlines sub) []))"

text \<open>The final cleanup: \<open>set(l.strip().rstrip(";") for l in taxa if l.strip())\<close>.\<close>

definition clean_labels :: "string set \<Rightarrow> string set" where
  "clean_labels taxa =
     (\<lambda>l. str_rstrip_chars '';'' (str_strip l)) ` {l \<in> taxa. str_strip l \<noteq> []}"

text \<open>The body of \<open>parse_nexus_taxa\<close> once the text of the file has been read.\<close>

definition parse_nexus_text :: "string \<Rightarrow> string set" where
  "parse_nexus_text raw =
     (let no_comments = strip_nexus_comments raw;
          labels = parse_taxlabels_block no_comments;
          taxa = (if labels \<noteq> [] then set labels else {});
          taxa = (if taxa = {} then taxa \<union> set (parse_matrix_block no_comments) else taxa)
      in clean_labels taxa)"

section \<open>Files, errors and diagnostics\<close>

text \<open>
  The exceptions of the program: \<open>OSError\<close> for a file that cannot be opened, read or
  written, \<open>ValueError\<close> for the unknown format of strict mode, \<open>IndexError\<close> for an
  index out of range and \<open>CsvError\<close> for a failure of the CSV reader.
\<close>

datatype error = OSError | ValueError | IndexError | CsvError

type_synonym path = string

text \<open>
  What the program can observe of one path: \<open>suffix\<close> is \<open>path.suffix\<close>, \<open>utf8_text\<close> the
  result of opening the file and reading it as UTF-8 text with undecodable bytes ignored
  (an error when that raises), \<open>latin1_text\<close> the result of reading it as Latin-1.
\<close>

record infile =
  suffix :: string
  utf8_text :: "error + string"
  latin1_text :: "error + string"

datatype format = Fasta | Nexus | Unknown

text \<open>The lines written to the standard error stream.\<close>

datatype message =
    Ignored path
  | FileOk path nat
  | Warning path error
  | UsageError
  | NoFilesFound
  | Scanning nat
  | NoTaxaFound
  | Detected nat
  | GroupsLoaded nat
  | MapSaved path
  | TaxaSaved path

section \<open>FASTA label extraction\<close>

text \<open>The loop over the lines of a FASTA file, \<open>taxa\<close> being the set built so far.\<close>

fun fasta_lines :: "string list \<Rightarrow> string set \<Rightarrow> error + string set" where
  "fasta_lines [] taxa = Inr taxa"
| "fasta_lines (line # rest) taxa =
     (if str_startswith ''>'' line
      then (let label = str_strip (drop 1 line)
            in if label = [] then fasta_lines rest taxa
               else (case str_split label of
                       [] \<Rightarrow> Inl IndexError
                     | w # _ \<Rightarrow> fasta_lines rest (insert w taxa)))
      else fasta_lines rest taxa)"

definition parse_fasta_taxa :: "infile \<Rightarrow> error + string set" where
  "parse_fasta_taxa f =
     (case utf8_text f of
        Inl e \<Rightarrow> Inl e
      | Inr text \<Rightarrow> fasta_lines (readlines text) {})"

definition parse_nexus_taxa :: "infile \<Rightarrow> error + string set" where
  "parse_nexus_taxa f =
     (case (case utf8_text f of Inl e \<Rightarrow> latin1_text f | Inr raw \<Rightarrow> Inr raw) of
        Inl e \<Rightarrow> Inl e
      | Inr raw \<Rightarrow> Inr (parse_nexus_text raw))"

section \<open>Format detection\<close>

text \<open>The loop of the detector over the lines it reads; \<open>None\<close> when no line decides.\<close>

fun detect_lines :: "string list \<Rightarrow> format option" where
  "detect_lines [] = None"
| "detect_lines (line # rest) =
     (let s = str_strip line
      in if s = [] then detect_lines rest
         else if str_startswith ''>'' s then Some Fasta
         else if str_startswith ''#NEXUS'' (str_upper s) then Some Nexus
         else detect_lines rest)"

definition format_of_suffix :: "string \<Rightarrow> format" where
  "format_of_suffix sfx =
     (let ext = str_lower sfx
      in if ext \<in> set [''.fasta'', ''.fa'', ''.fas''] then Fasta
         else if ext \<in> set [''.nex'', ''.nexus''] then Nexus
         else Unknown)"

definition detect_format_from_content :: "infile \<Rightarrow> format" where
  "detect_format_from_content f =
     (case (case utf8_text f of
              Inl e \<Rightarrow> None
            | Inr text \<Rightarrow> detect_lines (take 50 (readlines text))) of
        Some fmt \<Rightarrow> fmt
      | None \<Rightarrow> format_of_suffix (suffix f))"

section \<open>Group table\<close>

text \<open>\<open>header.index(x)\<close>, used only for an \<open>x\<close> that is in the list.\<close>

fun index_of :: "'a \<Rightarrow> 'a list \<Rightarrow> nat" where
  "index_of x [] = 0"
| "index_of x (y # ys) = (if x = y then 0 else Suc (index_of x ys))"

text \<open>
  The group table is a Python dictionary: a list of keys with their values, in the order
  in which the keys were first stored. Storing under a key that is present replaces its
  value in place (\<open>AList.update\<close>), and \<open>map_of\<close> looks a key up.
\<close>

type_synonym group_table = "(string \<times> string) list"

text \<open>The loop over the data rows, \<open>mapping\<close> being the table built so far.\<close>

fun load_rows :: "nat \<Rightarrow> nat \<Rightarrow> string list list \<Rightarrow> group_table \<Rightarrow> group_table" where
  "load_rows tax_idx grp_idx [] mapping = mapping"
| "load_rows tax_idx grp_idx (r # rs) mapping =
     (if length r \<le> max tax_idx grp_idx then load_rows tax_idx grp_idx rs mapping
      else (let taxon = str_strip (r ! tax_idx);
                group = str_strip (r ! grp_idx)
            in if taxon \<noteq> [] then load_rows tax_idx grp_idx rs (AList.update taxon group mapping)
               else load_rows tax_idx grp_idx rs mapping))"

text \<open>
  Header detection on the first row: the columns of the taxon and of the group, and the
  index of the first data row.
\<close>

definition header_layout :: "string list \<Rightarrow> nat \<times> nat \<times> nat" where
  "header_layout first =
     (let header = map (\<lambda>c. str_lower (str_strip c)) first
      in if ''taxon'' \<in> set header \<and> ''group'' \<in> set header
         then (index_of ''taxon'' header, index_of ''group'' header, 1)
         else (0, 1, 0))"

text \<open>The part of \<open>load_groups_csv\<close> after the CSV reader has produced the rows.\<close>

definition groups_of_rows :: "string list list \<Rightarrow> group_table" where
  "groups_of_rows rows =
     (case rows of
        [] \<Rightarrow> []
      | first # _ \<Rightarrow>
          (case header_layout first of
             (tax_idx, grp_idx, start_idx) \<Rightarrow>
               load_rows tax_idx grp_idx (drop start_idx rows) []))"

text \<open>
  \<open>csv.reader\<close> belongs to the standard library and is a parameter: from the lines and the
  delimiter it gives the rows, or fails.
\<close>

type_synonym csv_reader = "string list \<Rightarrow> char \<Rightarrow> error + string list list"

definition delimiter :: "string \<Rightarrow> char" where
  "delimiter sample =
     (if count_list sample CHR 0x09 > count_list sample CHR '','' then CHR 0x09 else CHR '','')"

definition load_groups_csv :: "csv_reader \<Rightarrow> infile \<Rightarrow> error + group_table" where
  "load_groups_csv reader f =
     (case utf8_text f of
        Inl e \<Rightarrow> Inl e
      | Inr sample \<Rightarrow>
          (case reader (str_splitlines sample) (delimiter sample) of
             Inl e \<Rightarrow> Inl e
           | Inr rows \<Rightarrow> Inr (groups_of_rows rows)))"

section \<open>Taxon aggregation\<close>

text \<open>
  \<open>gather_taxa\<close>: the loop over the paths, with the set and the diagnostics built so far.
  The result is the exception that left the function or the set it returned, and the
  diagnostics printed until then.
\<close>

fun gather_loop ::
  "(path \<Rightarrow> infile) \<Rightarrow> bool \<Rightarrow> bool \<Rightarrow> path list \<Rightarrow> string set \<Rightarrow> message list
     \<Rightarrow> (error + string set) \<times> message list" where
  "gather_loop fs strict verbose [] taxa log = (Inr taxa, log)"
| "gather_loop fs strict verbose (p # ps) taxa log =
     (let fmt = detect_format_from_content (fs p)
      in if fmt = Fasta \<or> fmt = Nexus
         then (case (if fmt = Fasta then parse_fasta_taxa (fs p) else parse_nexus_taxa (fs p)) of
                 Inr ts \<Rightarrow>
                   gather_loop fs strict verbose ps (taxa \<union> ts)
                     (log @ (if verbose then [FileOk p (card ts)] else []))
               | Inl e \<Rightarrow>
                   if strict then (Inl e, log)
                   else gather_loop fs strict verbose ps taxa (log @ [Warning p e]))
         else (let log = log @ (if verbose then [Ignored p] else [])
               in if strict then (Inl ValueError, log)
                  else gather_loop fs strict verbose ps taxa log))"

definition gather_taxa ::
  "(path \<Rightarrow> infile) \<Rightarrow> path list \<Rightarrow> bool \<Rightarrow> bool \<Rightarrow> (error + string set) \<times> message list" where
  "gather_taxa fs paths strict verbose = gather_loop fs strict verbose paths {} []"

section \<open>Group resolution and the main program\<close>

text \<open>
  \<open>pick_group\<close> is local to \<open>main\<close>; the table and the policy it closes over are its first
  two arguments.
\<close>

definition pick_group :: "group_table \<Rightarrow> string \<Rightarrow> string \<Rightarrow> string" where
  "pick_group mapping default_group_mode t =
     (case map_of mapping t of
        Some g \<Rightarrow> g
      | None \<Rightarrow>
          if default_group_mode = ''species'' then t
          else if default_group_mode = ''NA'' then ''NA''
          else if default_group_mode = ''none'' then []
          else t)"

text \<open>The parsed command line.\<close>

record args =
  pattern :: string
  groups :: "string option"
  default_group :: string
  out_map :: path
  out_taxa :: "path option"
  strict :: bool
  verbose :: bool

text \<open>
  The surroundings of a run: whether the input is a directory, the files a pattern finds
  below it, the files, the CSV reader, and whether a path can be created and written.
\<close>

record env =
  is_dir :: bool
  rglob :: "string \<Rightarrow> path list"
  files :: "path \<Rightarrow> infile"
  csv :: csv_reader
  writable :: "path \<Rightarrow> bool"

text \<open>
  How a run ends: by reaching the end of \<open>main\<close>, by \<open>sys.exit\<close> with a status (also the
  exit of the argument parser), or by an exception nobody catches.
\<close>

datatype ending = Completed | SysExit nat | Uncaught error

fun exit_status :: "ending \<Rightarrow> nat" where
  "exit_status Completed = 0"
| "exit_status (SysExit n) = n"
| "exit_status (Uncaught e) = 1"

record outcome =
  ending :: ending
  stderr :: "message list"
  written :: "(path \<times> string) list"

definition map_text :: "group_table \<Rightarrow> string \<Rightarrow> string set \<Rightarrow> string" where
  "map_text mapping mode taxa =
     concat (map (\<lambda>t. t @ [CHR 0x09] @ pick_group mapping mode t @ [CHR 0x0A])
       (sorted_list_of_set taxa))"

definition taxa_text :: "string set \<Rightarrow> string" where
  "taxa_text taxa = concat (map (\<lambda>t. t @ [CHR 0x0A]) (sorted_list_of_set taxa))"

text \<open>The last part of \<open>main\<close>: writing the map file and the optional list of taxa.\<close>

definition write_outputs ::
  "env \<Rightarrow> args \<Rightarrow> string set \<Rightarrow> group_table \<Rightarrow> message list \<Rightarrow> outcome" where
  "write_outputs env a taxa mapping log =
     (if \<not> writable env (out_map a)
      then \<lparr>ending = Uncaught OSError, stderr = log, written = []\<rparr>
      else (let w = [(out_map a, map_text mapping (default_group a) taxa)]
            in case out_taxa a of
                 None \<Rightarrow>
                   \<lparr>ending = Completed,
                    stderr = log @ (if verbose a then [MapSaved (out_map a)] else []),
                    written = w\<rparr>
               | Some ot \<Rightarrow>
                   if ot = [] then
                     \<lparr>ending = Completed,
                      stderr = log @ (if verbose a then [MapSaved (out_map a)] else []),
                      written = w\<rparr>
                   else if \<not> writable env ot
                   then \<lparr>ending = Uncaught OSError, stderr = log, written = w\<rparr>
                   else \<lparr>ending = Completed,
                         stderr = log @ (if verbose a then [MapSaved (out_map a), TaxaSaved ot] else []),
                         written = w @ [(ot, taxa_text taxa)]\<rparr>))"

text \<open>The files found below the input directory, pattern by pattern.\<close>

definition found_files :: "env \<Rightarrow> args \<Rightarrow> path list" where
  "found_files env a =
     (let patterns = filter (\<lambda>p. p \<noteq> []) (map str_strip (str_split_on CHR '','' (pattern a)))
      in concat (map (rglob env) patterns))"

definition main :: "env \<Rightarrow> args \<Rightarrow> outcome" where
  "main env a =
     (if default_group a \<notin> set [''species'', ''NA'', ''none''] \<or> \<not> is_dir env
      then \<lparr>ending = SysExit 2, stderr = [UsageError], written = []\<rparr>
      else
        (let found = found_files env a
         in if found = []
            then \<lparr>ending = SysExit 2, stderr = [NoFilesFound], written = []\<rparr>
            else
              (let log = (if verbose a then [Scanning (length found)] else [])
               in case gather_taxa (files env) found (strict a) (verbose a) of
                    (Inl e, glog) \<Rightarrow> \<lparr>ending = Uncaught e, stderr = log @ glog, written = []\<rparr>
                  | (Inr taxa, glog) \<Rightarrow>
                      if taxa = {}
                      then \<lparr>ending = SysExit 3, stderr = log @ glog @ [NoTaxaFound], written = []\<rparr>
                      else
                        (let log = log @ glog @ (if verbose a then [Detected (card taxa)] else [])
                         in case groups a of
                              None \<Rightarrow> write_outputs env a taxa [] log
                            | Some g \<Rightarrow>
                                if g = [] then write_outputs env a taxa [] log
                                else (case load_groups_csv (csv env) (files env g) of
                                        Inl e \<Rightarrow> \<lparr>ending = Uncaught e, stderr = log, written = []\<rparr>
                                      | Inr mapping \<Rightarrow>
                                          write_outputs env a taxa mapping
                                            (log @ (if verbose a
                                                    then [GroupsLoaded (length mapping)]
                                                    else [])))))))"

section \<open>Notions used in the statements\<close>

text \<open>
  The label a line of the MATRIX span contributes: none for a blank line, for a line that
  starts with one of the keywords and for a line without a token, else its first token.
\<close>

definition row_label :: "string \<Rightarrow> string option" where
  "row_label raw =
     (let line = str_strip raw
      in if line = [] \<or> list_ex (\<lambda>k. str_startswith k (str_lower line)) matrix_keywords
         then None
         else (case tokenize line of [] \<Rightarrow> None | tok # _ \<Rightarrow> Some tok))"

text \<open>
  What scanning one file amounts to in \<open>gather_taxa\<close>: nothing for a file of unknown
  format, else the result of the extractor its format selects; and the labels a file
  contributes to a scan that goes on after failures.
\<close>

definition scan_file :: "infile \<Rightarrow> (error + string set) option" where
  "scan_file f =
     (case detect_format_from_content f of
        Fasta \<Rightarrow> Some (parse_fasta_taxa f)
      | Nexus \<Rightarrow> Some (parse_nexus_taxa f)
      | Unknown \<Rightarrow> None)"

definition file_taxa :: "infile \<Rightarrow> string set" where
  "file_taxa f = (case scan_file f of Some (Inr ts) \<Rightarrow> ts | _ \<Rightarrow> {})"

section \<open>Example inputs\<close>

text \<open>
  A small directory: a FASTA file, a NEXUS file that cannot be read, a NEXUS file with a
  TAXLABELS block, and text files of no known format.
\<close>

definition demo_files :: "path \<Rightarrow> infile" where
  "demo_files p =
     (if p = ''a.fasta'' then \<lparr>suffix = ''.fasta'', utf8_text = Inr ''>taxA desc\<newline>ACGT\<newline>>taxB\<newline>ACGA\<newline>'', latin1_text = Inl OSError\<rparr>
      else if p = ''b.nex'' then \<lparr>suffix = ''.nex'', utf8_text = Inl OSError, latin1_text = Inl OSError\<rparr>
      else if p = ''c.nex'' then \<lparr>suffix = ''.nex'', utf8_text = Inr ''#NEXUS\<newline>BEGIN TAXA; TAXLABELS taxC taxA; END;'', latin1_text = Inl OSError\<rparr>
      else \<lparr>suffix = ''.txt'', utf8_text = Inr ''notes\<newline>'', latin1_text = Inr ''notes\<newline>''\<rparr>)"

definition demo_env :: env where
  "demo_env = \<lparr>is_dir = True,
      rglob = (\<lambda>pat. if pat = ''*.txt'' then [''notes.txt'', ''readme.txt''] else []),
      files = demo_files,
      csv = (\<lambda>ls d. Inr (map (str_split_on d) ls)),
      writable = (\<lambda>p. True)\<rparr>"

definition demo_args :: "string \<Rightarrow> args" where
  "demo_args pat = \<lparr>pattern = pat, groups = None, default_group = ''species'',
      out_map = ''astral.map'', out_taxa = None, strict = False, verbose = False\<rparr>"

text \<open>A reader that splits each line at the delimiter, and a group table with a header.\<close>

definition demo_reader :: csv_reader where
  "demo_reader ls d = Inr (map (str_split_on d) ls)"

definition demo_csv :: infile where
  "demo_csv = \<lparr>suffix = ''.csv'',
     utf8_text = Inr ''taxon,group\<newline>taxA,g1\<newline>taxB,g2\<newline>taxA , g3\<newline>taxC\<newline>'',
     latin1_text = Inl OSError\<rparr>"

text \<open>
  The FASTA extractor in the words of its specification: the first token of a text is its
  first maximal run of characters that are not white space; the labels of a FASTA text
  are the first tokens of what follows the marker \<open>>\<close> on the lines that begin with it,
  lines with nothing but white space after the marker left out.
\<close>

definition first_token :: "string \<Rightarrow> string" where
  "first_token s = takeWhile (\<lambda>c. \<not> isspace c) (dropWhile isspace s)"

definition fasta_labels_spec :: "string \<Rightarrow> string set" where
  "fasta_labels_spec text =
     (\<lambda>l. first_token (drop 1 l)) `
       {l \<in> set (readlines text). str_startswith ''>'' l \<and> str_strip (drop 1 l) \<noteq> []}"

text \<open>A FASTA file with a repeated header, an empty header and an indented marker.\<close>

definition demo_fasta :: infile where
  "demo_fasta = \<lparr>suffix = ''.fasta'',
     utf8_text = Inr ''>taxA desc\<newline>ACGT\<newline>>taxB\<newline>ACGA\<newline>>taxA dup\<newline>ACGG\<newline>>   \<newline> >taxZ\<newline>'',
     latin1_text = Inl OSError\<rparr>"

text \<open>A FASTA file whose header token ends in a semicolon.\<close>

definition demo_semicolon :: infile where
  "demo_semicolon = \<lparr>suffix = ''.fasta'', utf8_text = Inr ''>taxA; sample 1\<newline>ACGT\<newline>'',
     latin1_text = Inl OSError\<rparr>"

text \<open>
  A TAXLABELS block as it is written: each taxon name stands between single quotes,
  between double quotes or bare, and is followed by a separator of white space. A name
  is valid when it is a taxon label (not empty, no white space at its ends), contains no
  semicolon, and, when quoted, does not contain its own quote character; a bare name
  contains no white space and does not begin with a quote character. A block is valid
  when its names are, and a bare name that is not the last one is followed by at least
  one character of white space.
\<close>

datatype taxon_name = SingleQuoted string | DoubleQuoted string | Unquoted string

fun name_of :: "taxon_name \<Rightarrow> string" where
  "name_of (SingleQuoted s) = s"
| "name_of (DoubleQuoted s) = s"
| "name_of (Unquoted s) = s"

fun written_name :: "taxon_name \<Rightarrow> string" where
  "written_name (SingleQuoted s) = [CHR 0x27] @ s @ [CHR 0x27]"
| "written_name (DoubleQuoted s) = [CHR 0x22] @ s @ [CHR 0x22]"
| "written_name (Unquoted s) = s"

fun valid_name :: "taxon_name \<Rightarrow> bool" where
  "valid_name (SingleQuoted s) \<longleftrightarrow>
     s \<noteq> [] \<and> str_strip s = s \<and> CHR '';'' \<notin> set s \<and> CHR 0x27 \<notin> set s"
| "valid_name (DoubleQuoted s) \<longleftrightarrow>
     s \<noteq> [] \<and> str_strip s = s \<and> CHR '';'' \<notin> set s \<and> CHR 0x22 \<notin> set s"
| "valid_name (Unquoted s) \<longleftrightarrow>
     s \<noteq> [] \<and> list_all (\<lambda>c. \<not> isspace c) s \<and> CHR '';'' \<notin> set s \<and>
     hd s \<noteq> CHR 0x27 \<and> hd s \<noteq> CHR 0x22"

fun is_unquoted :: "taxon_name \<Rightarrow> bool" where
  "is_unquoted (Unquoted s) = True"
| "is_unquoted n = False"

fun block_body :: "(taxon_name \<times> string) list \<Rightarrow> string" where
  "block_body [] = []"
| "block_body ((n, sep) # rest) = written_name n @ sep @ block_body rest"

fun valid_block :: "(taxon_name \<times> string) list \<Rightarrow> bool" where
  "valid_block [] = True"
| "valid_block ((n, sep) # rest) \<longleftrightarrow>
     valid_name n \<and> list_all isspace sep \<and> (sep = [] \<longrightarrow> \<not> is_unquoted n \<or> rest = []) \<and>
     valid_block rest"

text \<open>A NEXUS text with a comment, both kinds of quotes and a MATRIX block after the names.\<close>

definition demo_names :: "(taxon_name \<times> string) list" where
  "demo_names = [(DoubleQuoted ''tax two'', []), (SingleQuoted ''x  y'', '' ''),
     (Unquoted ''taxZ'', ''\<newline>   ''), (Unquoted ''O'Neil'', ''\<newline>'')]"

definition demo_nexus :: string where
  \<open>demo_nexus = ''#NEXUS\<newline>[the taxlabels; of this file]\<newline>Begin Taxa;\<newline>  TaxLabels\<newline>   "tax two"'x  y' taxZ\<newline>   O'Neil\<newline>;\<newline>End;\<newline>Begin Data; Matrix\<newline>other ACGT\<newline>;End;''\<close>

section \<open>Comment stripping is idempotent\<close>

lemma set_tl_dropWhile: "set (tl (dropWhile P xs)) \<subseteq> set xs"
  by (metis list.set_sel(2) set_dropWhileD subsetI tl_Nil empty_iff empty_set)

lemma set_strip_nexus_comments: "set (strip_nexus_comments t) \<subseteq> set t"
proof (induction t rule: strip_nexus_comments.induct)
  case 1
  show ?case by simp
next
  case (2 c cs)
  with set_tl_dropWhile [of "\<lambda>x. x \<noteq> CHR '']''" cs] show ?case by auto
qed

text \<open>
  C6. Comment stripping is idempotent: stripping the comments of a text that has been
  stripped already changes nothing.
\<close>

theorem strip_nexus_comments_idempotent:
  "strip_nexus_comments (strip_nexus_comments t) = strip_nexus_comments t"
proof (induction t rule: strip_nexus_comments.induct)
  case 1
  show ?case by simp
next
  case (2 c cs)
  show ?case
  proof (cases "c = CHR ''['' \<and> CHR '']'' \<in> set cs")
    case True
    with 2 show ?thesis by simp
  next
    case False
    then have "\<not> (c = CHR ''['' \<and> CHR '']'' \<in> set (strip_nexus_comments cs))"
      using set_strip_nexus_comments [of cs] by auto
    moreover have "strip_nexus_comments (strip_nexus_comments cs) = strip_nexus_comments cs"
      using False 2 by blast
    moreover have "strip_nexus_comments (c # cs) = c # strip_nexus_comments cs"
      using False by auto
    ultimately show ?thesis by auto
  qed
qed

section \<open>The MATRIX fallback on a block without terminator\<close>

lemma matrix_rows_map_filter:
  "matrix_rows ls labels = labels @ List.map_filter row_label ls"
  by (induction ls arbitrary: labels)
     (auto simp: row_label_def Let_def List.map_filter_simps split: list.splits)

text \<open>
  C1 as stated fails: for a text in which \<open>matrix\<close> occurs and no semicolon follows it,
  the extraction still yields labels. The text below has two data rows after the keyword
  and no semicolon, and both row names are returned.
\<close>

theorem parse_matrix_block_unterminated_counterexample:
  "\<not> (\<forall>text i. str_find ''matrix'' (str_lower text) = Some i \<and>
         CHR '';'' \<notin> set (drop (i + length ''matrix'') text) \<longrightarrow>
         parse_matrix_block text = [])"
proof
  assume h: "\<forall>text i. str_find ''matrix'' (str_lower text) = Some i \<and>
         CHR '';'' \<notin> set (drop (i + length ''matrix'') text) \<longrightarrow>
         parse_matrix_block text = []"
  have a: "str_find ''matrix'' (str_lower ''MATRIX\<newline>taxA ACGT\<newline>taxB ACGA'') = Some 0"
    by code_simp
  have b: "CHR '';'' \<notin> set (drop (0 + length ''matrix'') ''MATRIX\<newline>taxA ACGT\<newline>taxB ACGA'')"
    by simp
  have c: "parse_matrix_block ''MATRIX\<newline>taxA ACGT\<newline>taxB ACGA'' = [''taxA'', ''taxB'']"
    by code_simp
  from h a b have "parse_matrix_block ''MATRIX\<newline>taxA ACGT\<newline>taxB ACGA'' = []"
    by blast
  with c show False by simp
qed

text \<open>
  C1, amended. When \<open>matrix\<close> occurs at index \<open>i\<close> (its first occurrence, in any case) and
  no semicolon follows it, the span is the whole rest of the text after the keyword, and
  the extraction yields the first token of every line of that rest that is not blank and
  does not start with one of the skipped keywords, in the order of the lines.
\<close>

theorem parse_matrix_block_unterminated:
  assumes "str_find ''matrix'' (str_lower text) = Some i"
    and "CHR '';'' \<notin> set (drop (i + length ''matrix'') text)"
  shows "parse_matrix_block text =
           List.map_filter row_label (str_splitlines (drop (i + length ''matrix'') text))"
  using assms by (simp add: parse_matrix_block_def matrix_rows_map_filter)

theorem parse_matrix_block_unterminated_witness:
  "str_find ''matrix'' (str_lower ''MATRIX\<newline>taxA ACGT\<newline>taxB ACGA'') = Some 0 \<and>
   CHR '';'' \<notin> set (drop (0 + length ''matrix'') ''MATRIX\<newline>taxA ACGT\<newline>taxB ACGA'') \<and>
   parse_matrix_block ''MATRIX\<newline>taxA ACGT\<newline>taxB ACGA'' = [''taxA'', ''taxB'']"
proof -
  let ?t = "''MATRIX\<newline>taxA ACGT\<newline>taxB ACGA''"
  have a: "str_find ''matrix'' (str_lower ?t) = Some 0"
    by code_simp
  have b: "CHR '';'' \<notin> set (drop (0 + length ''matrix'') ?t)"
    by simp
  have c: "List.map_filter row_label (str_splitlines (drop (0 + length ''matrix'') ?t)) =
             [''taxA'', ''taxB'']"
    by code_simp
  show ?thesis
    using parse_matrix_block_unterminated [OF a b] a b c by simp
qed

section \<open>Priority of TAXLABELS over MATRIX\<close>

text \<open>
  C3. When the TAXLABELS step yields at least one label, the result of the NEXUS
  extractor is the cleanup of exactly those labels: the MATRIX block contributes nothing,
  and two texts with the same labels in that step have the same result, whatever their
  MATRIX blocks hold. The MATRIX fallback decides the result only when the TAXLABELS
  step yields no label.
\<close>

theorem taxlabels_priority:
  "(parse_taxlabels_block (strip_nexus_comments raw) \<noteq> [] \<longrightarrow>
      parse_nexus_text raw =
        clean_labels (set (parse_taxlabels_block (strip_nexus_comments raw)))) \<and>
   (parse_taxlabels_block (strip_nexus_comments raw) \<noteq> [] \<and>
    parse_taxlabels_block (strip_nexus_comments other) =
      parse_taxlabels_block (strip_nexus_comments raw) \<longrightarrow>
      parse_nexus_text other = parse_nexus_text raw) \<and>
   (parse_taxlabels_block (strip_nexus_comments raw) = [] \<longrightarrow>
      parse_nexus_text raw =
        clean_labels (set (parse_matrix_block (strip_nexus_comments raw))))"
  by (simp add: parse_nexus_text_def Let_def)

theorem taxlabels_priority_witness:
  "parse_nexus_text ''TAXLABELS a b; MATRIX\<newline>c ACGT\<newline>d ACGT\<newline>;'' = {''a'', ''b''} \<and>
   parse_matrix_block
     (strip_nexus_comments ''TAXLABELS a b; MATRIX\<newline>c ACGT\<newline>d ACGT\<newline>;'') = [''c'', ''d''] \<and>
   parse_nexus_text ''TAXLABELS a b;'' =
     parse_nexus_text ''TAXLABELS a b; MATRIX\<newline>c ACGT\<newline>d ACGT\<newline>;'' \<and>
   parse_nexus_text ''BEGIN DATA; MATRIX\<newline>c ACGT\<newline>d ACGT\<newline>;'' = {''c'', ''d''}"
proof -
  let ?t1 = "''TAXLABELS a b; MATRIX\<newline>c ACGT\<newline>d ACGT\<newline>;''"
  let ?t2 = "''BEGIN DATA; MATRIX\<newline>c ACGT\<newline>d ACGT\<newline>;''"
  let ?t3 = "''TAXLABELS a b;''"
  have a: "parse_taxlabels_block (strip_nexus_comments ?t1) = [''a'', ''b'']"
    by code_simp
  have b: "parse_matrix_block (strip_nexus_comments ?t1) = [''c'', ''d'']"
    by code_simp
  have c: "parse_taxlabels_block (strip_nexus_comments ?t2) = []"
    by code_simp
  have d: "parse_matrix_block (strip_nexus_comments ?t2) = [''c'', ''d'']"
    by code_simp
  have e: "clean_labels (set [''a'', ''b'']) = {''a'', ''b''}"
    by code_simp
  have f: "clean_labels (set [''c'', ''d'']) = {''c'', ''d''}"
    by code_simp
  have g: "parse_taxlabels_block (strip_nexus_comments ?t3) = [''a'', ''b'']"
    by code_simp
  show ?thesis
    using taxlabels_priority [of ?t1 ?t3] taxlabels_priority [of ?t2 ?t2] a b c d e f g by simp
qed

section \<open>Group resolution\<close>

text \<open>
  C8. A taxon that is a key of the group table resolves to the value stored for it,
  whatever that value and whatever the policy; a taxon that is no key resolves to itself
  under \<open>species\<close>, to \<open>NA\<close> under \<open>NA\<close> and to the empty string under \<open>none\<close>.
\<close>

theorem pick_group_rule:
  "(map_of mapping t = Some g \<longrightarrow> pick_group mapping mode t = g) \<and>
   (map_of mapping t = None \<longrightarrow>
      pick_group mapping ''species'' t = t \<and>
      pick_group mapping ''NA'' t = ''NA'' \<and>
      pick_group mapping ''none'' t = [])"
  by (simp add: pick_group_def)

theorem pick_group_rule_witness:
  "pick_group [(''taxA'', ''groupX'')] ''NA'' ''taxA'' = ''groupX'' \<and>
   pick_group [(''taxA'', [])] ''species'' ''taxA'' = [] \<and>
   pick_group [(''taxA'', ''groupX'')] ''species'' ''taxB'' = ''taxB'' \<and>
   pick_group [(''taxA'', ''groupX'')] ''NA'' ''taxB'' = ''NA'' \<and>
   pick_group [(''taxA'', ''groupX'')] ''none'' ''taxB'' = []"
  using pick_group_rule [of "[(''taxA'', ''groupX'')]" "''taxA''" "''groupX''" "''NA''"]
    pick_group_rule [of "[(''taxA'', [])]" "''taxA''" "[]" "''species''"]
    pick_group_rule [of "[(''taxA'', ''groupX'')]" "''taxB''" "[]" "''NA''"]
  by simp

section \<open>Failures during the scan\<close>

lemma gather_loop_nonstrict:
  "fst (gather_loop fs False v ps taxa log) = Inr (taxa \<union> (\<Union>q\<in>set ps. file_taxa (fs q)))"
proof (induction ps arbitrary: taxa log)
  case Nil
  show ?case by simp
next
  case (Cons p ps)
  show ?case
  proof (cases "detect_format_from_content (fs p)")
    case Fasta
    then show ?thesis
      using Cons.IH by (cases "parse_fasta_taxa (fs p)")
        (auto simp: file_taxa_def scan_file_def Let_def)
  next
    case Nexus
    then show ?thesis
      using Cons.IH by (cases "parse_nexus_taxa (fs p)")
        (auto simp: file_taxa_def scan_file_def Let_def)
  next
    case Unknown
    then show ?thesis
      using Cons.IH by (auto simp: file_taxa_def scan_file_def Let_def)
  qed
qed

lemma gather_loop_strict_failure:
  assumes "scan_file (fs p) = Some (Inl e)"
  shows "fst (gather_loop fs True v (p # ps) taxa log) = Inl e"
  using assms by (cases "detect_format_from_content (fs p)") (auto simp: scan_file_def Let_def)

lemma gather_loop_strict_prefix:
  assumes "\<forall>q\<in>set ps1. \<exists>ts. scan_file (fs q) = Some (Inr ts)"
  shows "\<exists>taxa' log'. gather_loop fs True v (ps1 @ rest) taxa log =
           gather_loop fs True v rest taxa' log'"
  using assms
proof (induction ps1 arbitrary: taxa log)
  case Nil
  show ?case by auto
next
  case (Cons q qs)
  from Cons.prems obtain ts where ts: "scan_file (fs q) = Some (Inr ts)" by auto
  from Cons.prems have rest: "\<forall>q\<in>set qs. \<exists>ts. scan_file (fs q) = Some (Inr ts)" by simp
  from ts have "gather_loop fs True v ((q # qs) @ rest) taxa log =
      gather_loop fs True v (qs @ rest) (taxa \<union> ts) (log @ (if v then [FileOk q (card ts)] else []))"
    by (cases "detect_format_from_content (fs q)") (auto simp: scan_file_def Let_def)
  with Cons.IH [OF rest] show ?case by metis
qed

text \<open>
  C7. Let extracting from the file \<open>p\<close> raise the exception \<open>e\<close>. Without \<open>strict\<close> the
  scan of a list that contains \<open>p\<close> returns the union of the labels of the other files
  of the list (a file that fails or has no known format contributes none). With
  \<open>strict\<close>, when the files before \<open>p\<close> are extracted without failure, the scan ends
  with \<open>e\<close>, whatever files follow \<open>p\<close>.
\<close>

theorem gather_taxa_on_failure:
  assumes "scan_file (fs p) = Some (Inl e)"
  shows "fst (gather_taxa fs (ps1 @ p # ps2) False v) =
           Inr (\<Union>q\<in>set (ps1 @ ps2). file_taxa (fs q)) \<and>
         ((\<forall>q\<in>set ps1. \<exists>ts. scan_file (fs q) = Some (Inr ts)) \<longrightarrow>
            fst (gather_taxa fs (ps1 @ p # ps2) True v) = Inl e)"
proof
  have "file_taxa (fs p) = {}"
    using assms by (simp add: file_taxa_def)
  then show "fst (gather_taxa fs (ps1 @ p # ps2) False v) =
           Inr (\<Union>q\<in>set (ps1 @ ps2). file_taxa (fs q))"
    by (simp add: gather_taxa_def gather_loop_nonstrict)
next
  show "(\<forall>q\<in>set ps1. \<exists>ts. scan_file (fs q) = Some (Inr ts)) \<longrightarrow>
            fst (gather_taxa fs (ps1 @ p # ps2) True v) = Inl e"
  proof
    assume "\<forall>q\<in>set ps1. \<exists>ts. scan_file (fs q) = Some (Inr ts)"
    from gather_loop_strict_prefix [OF this, of v "p # ps2" "{}" "[]"]
    obtain taxa' log' where "gather_loop fs True v (ps1 @ p # ps2) {} [] =
           gather_loop fs True v (p # ps2) taxa' log'" by auto
    then show "fst (gather_taxa fs (ps1 @ p # ps2) True v) = Inl e"
      using gather_loop_strict_failure [where fs = fs and p = p and e = e] assms
      by (simp add: gather_taxa_def)
  qed
qed

theorem gather_taxa_on_failure_witness:
  "scan_file (demo_files ''b.nex'') = Some (Inl OSError) \<and>
   fst (gather_taxa demo_files [''a.fasta'', ''b.nex'', ''c.nex''] False False) =
     Inr {''taxA'', ''taxB'', ''taxC''} \<and>
   fst (gather_taxa demo_files [''a.fasta'', ''b.nex'', ''c.nex''] True False) = Inl OSError"
proof -
  have a: "scan_file (demo_files ''b.nex'') = Some (Inl OSError)"
    by code_simp
  have b: "scan_file (demo_files ''a.fasta'') = Some (Inr {''taxA'', ''taxB''})"
    by code_simp
  have c: "file_taxa (demo_files ''c.nex'') = {''taxC'', ''taxA''}"
    by code_simp
  have d: "file_taxa (demo_files ''a.fasta'') = {''taxA'', ''taxB''}"
    by (simp add: file_taxa_def b)
  show ?thesis
    using gather_taxa_on_failure [where fs = demo_files and p = "''b.nex''" and e = OSError
        and ?ps1.0 = "[''a.fasta'']" and ?ps2.0 = "[''c.nex'']" and v = False] a b c d
    by auto
qed

section \<open>Exit status\<close>

lemma gather_all_unknown:
  assumes "\<forall>p\<in>set ps. detect_format_from_content (fs p) = Unknown"
  shows "fst (gather_taxa fs ps False v) = Inr {}"
proof -
  have "\<forall>p\<in>set ps. file_taxa (fs p) = {}"
    using assms by (simp add: file_taxa_def scan_file_def)
  then show ?thesis
    by (simp add: gather_taxa_def gather_loop_nonstrict)
qed

lemma main_no_taxa:
  assumes "default_group a \<in> set [''species'', ''NA'', ''none'']" and "is_dir env"
    and "found_files env a \<noteq> []"
    and "fst (gather_taxa (files env) (found_files env a) (strict a) (verbose a)) = Inr {}"
  shows "ending (main env a) = SysExit 3 \<and> written (main env a) = []"
proof -
  obtain glog where "gather_taxa (files env) (found_files env a) (strict a) (verbose a) = (Inr {}, glog)"
    using assms(4) by (cases "gather_taxa (files env) (found_files env a) (strict a) (verbose a)") auto
  then show ?thesis
    using assms(1-3) by (simp add: main_def Let_def)
qed

text \<open>
  C9. On a valid command line, a run that finds no file ends with exit status 2, and a
  run that finds files but extracts no taxon ends with exit status 3; the two differ and
  neither is zero. In both cases nothing has been written. A directory that holds only
  files of unknown format, scanned without \<open>strict\<close>, is such a run of the second kind.
\<close>

theorem main_exit_status:
  assumes "default_group a \<in> set [''species'', ''NA'', ''none'']" and "is_dir env"
  shows "(found_files env a = [] \<longrightarrow>
            ending (main env a) = SysExit 2 \<and> written (main env a) = []) \<and>
         (found_files env a \<noteq> [] \<and>
          fst (gather_taxa (files env) (found_files env a) (strict a) (verbose a)) = Inr {} \<longrightarrow>
            ending (main env a) = SysExit 3 \<and> written (main env a) = []) \<and>
         (found_files env a \<noteq> [] \<and> \<not> strict a \<and>
          (\<forall>p\<in>set (found_files env a). detect_format_from_content (files env p) = Unknown) \<longrightarrow>
            ending (main env a) = SysExit 3 \<and> written (main env a) = []) \<and>
         exit_status (SysExit 2) \<noteq> 0 \<and> exit_status (SysExit 3) \<noteq> 0 \<and>
         exit_status (SysExit 2) \<noteq> exit_status (SysExit 3)"
proof (intro conjI impI)
  assume "found_files env a = []"
  then show "ending (main env a) = SysExit 2" "written (main env a) = []"
    using assms by (simp_all add: main_def Let_def)
next
  assume h: "found_files env a \<noteq> [] \<and>
          fst (gather_taxa (files env) (found_files env a) (strict a) (verbose a)) = Inr {}"
  then show "ending (main env a) = SysExit 3" "written (main env a) = []"
    using main_no_taxa [OF assms] by simp_all
next
  assume h: "found_files env a \<noteq> [] \<and> \<not> strict a \<and>
          (\<forall>p\<in>set (found_files env a). detect_format_from_content (files env p) = Unknown)"
  then have "fst (gather_taxa (files env) (found_files env a) (strict a) (verbose a)) = Inr {}"
    using gather_all_unknown [of "found_files env a" "files env" "verbose a"] by simp
  with h show "ending (main env a) = SysExit 3" "written (main env a) = []"
    using main_no_taxa [OF assms] by simp_all
qed simp_all

theorem main_exit_status_witness:
  "found_files demo_env (demo_args ''*.nex,*.fasta'') = [] \<and>
   ending (main demo_env (demo_args ''*.nex,*.fasta'')) = SysExit 2 \<and>
   written (main demo_env (demo_args ''*.nex,*.fasta'')) = [] \<and>
   found_files demo_env (demo_args ''*.nex, *.txt'') = [''notes.txt'', ''readme.txt''] \<and>
   detect_format_from_content (demo_files ''notes.txt'') = Unknown \<and>
   ending (main demo_env (demo_args ''*.nex, *.txt'')) = SysExit 3 \<and>
   written (main demo_env (demo_args ''*.nex, *.txt'')) = []"
proof -
  have a: "default_group (demo_args pat) \<in> set [''species'', ''NA'', ''none'']" for pat
    by (simp add: demo_args_def)
  have b: "is_dir demo_env"
    by (simp add: demo_env_def)
  have c: "found_files demo_env (demo_args ''*.nex,*.fasta'') = []"
    by code_simp
  have d: "found_files demo_env (demo_args ''*.nex, *.txt'') = [''notes.txt'', ''readme.txt'']"
    by code_simp
  have e: "detect_format_from_content (demo_files ''notes.txt'') = Unknown"
    by code_simp
  have f: "detect_format_from_content (demo_files ''readme.txt'') = Unknown"
    by code_simp
  have g: "\<not> strict (demo_args pat)" "files demo_env = demo_files" for pat
    by (simp_all add: demo_args_def demo_env_def)
  show ?thesis
    using main_exit_status [OF a b, of "''*.nex,*.fasta''"]
      main_exit_status [OF a b, of "''*.nex, *.txt''"] c d e f g
    by simp
qed

section \<open>Repeated taxa in the group table\<close>

lemma load_rows_append:
  "load_rows ti gi (xs @ ys) m = load_rows ti gi ys (load_rows ti gi xs m)"
  by (induction xs arbitrary: m) (auto simp: Let_def)

lemma load_rows_other:
  assumes "\<forall>r\<in>set rs. max ti gi < length r \<longrightarrow> str_strip (r ! ti) \<noteq> t"
  shows "map_of (load_rows ti gi rs m) t = map_of m t"
  using assms
proof (induction rs arbitrary: m)
  case Nil
  show ?case by simp
next
  case (Cons r rs)
  then show ?case
    by (auto simp: Let_def update_conv' simp del: max_less_iff_conj)
qed

lemma load_rows_last_wins:
  assumes "max ti gi < length r" and "str_strip (r ! ti) \<noteq> []"
    and "\<forall>r'\<in>set after. max ti gi < length r' \<longrightarrow> str_strip (r' ! ti) \<noteq> str_strip (r ! ti)"
  shows "map_of (load_rows ti gi (before @ r # after) m) (str_strip (r ! ti)) =
           Some (str_strip (r ! gi))"
proof -
  have "load_rows ti gi (before @ r # after) m =
          load_rows ti gi after
            (AList.update (str_strip (r ! ti)) (str_strip (r ! gi)) (load_rows ti gi before m))"
  proof -
    have "\<not> length r \<le> max ti gi"
      using assms(1) by linarith
    then show ?thesis
      using assms(2) by (simp add: load_rows_append Let_def del: max_less_iff_conj)
  qed
  then show ?thesis
    using load_rows_other [OF assms(3)] by (simp add: update_conv')
qed

text \<open>
  C10. Let the reader give the rows of the group table, and let \<open>r\<close> be a data row with
  both columns and a taxon that is not empty, such that no later data row with both
  columns has the same taxon. Then the table maps that taxon to the group of \<open>r\<close>,
  whatever the rows before \<open>r\<close> stored for it.
\<close>

theorem load_groups_csv_last_row_wins:
  assumes "utf8_text f = Inr sample"
    and "reader (str_splitlines sample) (delimiter sample) = Inr (first # rest)"
    and "header_layout first = (tax_idx, grp_idx, start_idx)"
    and "drop start_idx (first # rest) = before @ r # after"
    and "max tax_idx grp_idx < length r"
    and "str_strip (r ! tax_idx) \<noteq> []"
    and "\<forall>r'\<in>set after. max tax_idx grp_idx < length r' \<longrightarrow>
           str_strip (r' ! tax_idx) \<noteq> str_strip (r ! tax_idx)"
  shows "\<exists>table. load_groups_csv reader f = Inr table \<and>
           map_of table (str_strip (r ! tax_idx)) = Some (str_strip (r ! grp_idx))"
proof -
  have "load_groups_csv reader f =
          Inr (load_rows tax_idx grp_idx (before @ r # after) [])"
    using assms(1-4) by (simp add: load_groups_csv_def groups_of_rows_def)
  then show ?thesis
    using load_rows_last_wins [OF assms(5-7)] by simp
qed

theorem load_groups_csv_last_row_wins_witness:
  "load_groups_csv demo_reader demo_csv = Inr [(''taxA'', ''g3''), (''taxB'', ''g2'')] \<and>
   (\<exists>table. load_groups_csv demo_reader demo_csv = Inr table \<and>
      map_of table ''taxA'' = Some ''g3'')"
proof -
  let ?sample = "''taxon,group\<newline>taxA,g1\<newline>taxB,g2\<newline>taxA , g3\<newline>taxC\<newline>''"
  have a: "utf8_text demo_csv = Inr ?sample"
    by (simp add: demo_csv_def)
  have b: "demo_reader (str_splitlines ?sample) (delimiter ?sample) =
      Inr ([''taxon'', ''group''] # [[''taxA'', ''g1''], [''taxB'', ''g2''], [''taxA '', '' g3''], [''taxC'']])"
    by code_simp
  have c: "header_layout [''taxon'', ''group''] = (0, 1, 1)"
    by code_simp
  have d: "drop 1 ([''taxon'', ''group''] # [[''taxA'', ''g1''], [''taxB'', ''g2''], [''taxA '', '' g3''], [''taxC'']])
      = [[''taxA'', ''g1''], [''taxB'', ''g2'']] @ [''taxA '', '' g3''] # [[''taxC'']]"
    by simp
  have e: "str_strip ''taxA '' = ''taxA''" "str_strip '' g3'' = ''g3''"
    by code_simp+
  have f: "load_groups_csv demo_reader demo_csv = Inr [(''taxA'', ''g3''), (''taxB'', ''g2'')]"
    by code_simp
  show ?thesis
    using load_groups_csv_last_row_wins [where reader = demo_reader and f = demo_csv
        and sample = ?sample and first = "[''taxon'', ''group'']"
        and rest = "[[''taxA'', ''g1''], [''taxB'', ''g2''], [''taxA '', '' g3''], [''taxC'']]"
        and tax_idx = 0 and grp_idx = 1 and start_idx = 1
        and before = "[[''taxA'', ''g1''], [''taxB'', ''g2'']]" and r = "[''taxA '', '' g3'']"
        and after = "[[''taxC'']]"] a b c d e f
    by simp
qed

section \<open>The FASTA extractor meets its specification\<close>

lemma str_rstrip_decomp:
  "\<exists>ws. s = str_rstrip s @ ws \<and> (\<forall>x\<in>set ws. isspace x)"
proof -
  have "rev s = takeWhile isspace (rev s) @ dropWhile isspace (rev s)"
    by simp
  then have "s = rev (dropWhile isspace (rev s)) @ rev (takeWhile isspace (rev s))"
    by (metis rev_append rev_rev_ident)
  moreover have "\<forall>x\<in>set (rev (takeWhile isspace (rev s))). isspace x"
    by (auto dest: set_takeWhileD)
  ultimately show ?thesis
    unfolding str_rstrip_def by blast
qed

lemma takeWhile_append_stop:
  assumes "\<forall>x\<in>set ws. \<not> P x"
  shows "takeWhile P (xs @ ws) = takeWhile P xs"
proof (induction xs)
  case Nil
  from assms show ?case by (cases ws) auto
next
  case (Cons x xs)
  then show ?case by simp
qed

lemma str_split_strip_first:
  assumes "str_strip r \<noteq> []"
  shows "\<exists>rest. str_split (str_strip r) = first_token r # rest"
proof -
  obtain ws where ws: "str_lstrip r = str_strip r @ ws" "\<forall>x\<in>set ws. isspace x"
    using str_rstrip_decomp [of "str_lstrip r"] by (auto simp: str_strip_def)
  obtain c a where ca: "str_strip r = c # a"
    using assms by (cases "str_strip r") auto
  with ws have l: "dropWhile isspace r = c # a @ ws"
    by (simp add: str_lstrip_def)
  then have c: "\<not> isspace c"
    by (metis hd_dropWhile list.sel(1) list.distinct(1))
  have "takeWhile (\<lambda>x. \<not> isspace x) (a @ ws) = takeWhile (\<lambda>x. \<not> isspace x) a"
    using ws(2) by (intro takeWhile_append_stop) simp
  with l c have "first_token r = c # takeWhile (\<lambda>x. \<not> isspace x) a"
    by (simp add: first_token_def)
  with c ca show ?thesis by simp
qed

lemma fasta_lines_spec:
  "fasta_lines ls taxa =
     Inr (taxa \<union> (\<lambda>l. first_token (drop 1 l)) `
            {l \<in> set ls. str_startswith ''>'' l \<and> str_strip (drop 1 l) \<noteq> []})"
proof (induction ls arbitrary: taxa)
  case Nil
  show ?case by simp
next
  case (Cons line rest)
  show ?case
  proof (cases "str_startswith ''>'' line \<and> str_strip (drop 1 line) \<noteq> []")
    case True
    then obtain ws where "str_split (str_strip (drop 1 line)) = first_token (drop 1 line) # ws"
      using str_split_strip_first by blast
    with True show ?thesis
      by (auto simp: Cons.IH Let_def)
  next
    case False
    then show ?thesis
      by (auto simp: Cons.IH Let_def)
  qed
qed

lemma parse_fasta_taxa_text:
  "utf8_text f = Inr t \<Longrightarrow> parse_fasta_taxa f = Inr (fasta_labels_spec t)"
  by (simp add: parse_fasta_taxa_def fasta_lines_spec fasta_labels_spec_def)

text \<open>
  C5. On a file that can be read, the FASTA extractor returns exactly the set of the
  first tokens after the marker of the lines that begin with \<open>>\<close>, headers that are
  empty after the marker being skipped; being a set, it holds a repeated label once. In
  particular a file with the headers \<open>>taxA desc\<close>, \<open>>taxB\<close> and \<open>>taxA dup\<close> gives
  \<open>taxA\<close> and \<open>taxB\<close>.
\<close>

theorem parse_fasta_taxa_spec:
  "(utf8_text f = Inr text \<longrightarrow> parse_fasta_taxa f = Inr (fasta_labels_spec text)) \<and>
   (utf8_text f = Inr ''>taxA desc\<newline>ACGT\<newline>>taxB\<newline>ACGA\<newline>>taxA dup\<newline>ACGG\<newline>'' \<longrightarrow>
      parse_fasta_taxa f = Inr {''taxA'', ''taxB''})"
proof (intro conjI impI)
  assume "utf8_text f = Inr text"
  then show "parse_fasta_taxa f = Inr (fasta_labels_spec text)"
    by (rule parse_fasta_taxa_text)
next
  let ?t = "''>taxA desc\<newline>ACGT\<newline>>taxB\<newline>ACGA\<newline>>taxA dup\<newline>ACGG\<newline>''"
  assume "utf8_text f = Inr ?t"
  then have "parse_fasta_taxa f = Inr (fasta_labels_spec ?t)"
    by (rule parse_fasta_taxa_text)
  also have "fasta_labels_spec ?t = {''taxA'', ''taxB''}"
    by code_simp
  finally show "parse_fasta_taxa f = Inr {''taxA'', ''taxB''}" .
qed

theorem parse_fasta_taxa_spec_witness:
  "parse_fasta_taxa demo_fasta = Inr {''taxA'', ''taxB''}"
proof -
  let ?t = "''>taxA desc\<newline>ACGT\<newline>>taxB\<newline>ACGA\<newline>>taxA dup\<newline>ACGG\<newline>>   \<newline> >taxZ\<newline>''"
  have a: "utf8_text demo_fasta = Inr ?t"
    by (simp add: demo_fasta_def)
  have b: "fasta_labels_spec ?t = {''taxA'', ''taxB''}"
    by code_simp
  from parse_fasta_taxa_spec [of demo_fasta ?t] a
  have "parse_fasta_taxa demo_fasta = Inr (fasta_labels_spec ?t)"
    by blast
  then show ?thesis
    unfolding b .
qed

section \<open>Strings: stripping and tokens\<close>

lemma set_str_rstrip: "set (str_rstrip s) \<subseteq> set s"
  unfolding str_rstrip_def using set_dropWhileD [of _ isspace "rev s"] by auto

lemma set_str_strip: "set (str_strip s) \<subseteq> set s"
  unfolding str_strip_def str_lstrip_def
  using set_str_rstrip [of "dropWhile isspace s"] set_dropWhileD [of _ isspace s] by blast

lemma str_rstrip_last:
  assumes "str_rstrip s \<noteq> []"
  shows "\<not> isspace (last (str_rstrip s))"
proof -
  have "dropWhile isspace (rev s) \<noteq> []"
    using assms by (simp add: str_rstrip_def)
  then have "\<not> isspace (hd (dropWhile isspace (rev s)))"
    by (rule hd_dropWhile)
  then show ?thesis
    using assms by (simp add: str_rstrip_def last_rev)
qed

lemma str_rstrip_id:
  assumes "s = [] \<or> \<not> isspace (last s)"
  shows "str_rstrip s = s"
proof (cases "s = []")
  case True
  then show ?thesis by (simp add: str_rstrip_def)
next
  case False
  with assms have "\<not> isspace (hd (rev s))"
    by (simp add: hd_rev)
  with False have "dropWhile isspace (rev s) = rev s"
    by (cases "rev s") auto
  then show ?thesis by (simp add: str_rstrip_def)
qed

lemma str_strip_hd:
  assumes "str_strip s \<noteq> []"
  shows "\<not> isspace (hd (str_strip s))"
proof -
  obtain ws where ws: "str_lstrip s = str_strip s @ ws"
    using str_rstrip_decomp [of "str_lstrip s"] by (auto simp: str_strip_def)
  with assms have "hd (str_strip s) = hd (dropWhile isspace s)" "dropWhile isspace s \<noteq> []"
    by (auto simp: str_lstrip_def)
  then show ?thesis
    using hd_dropWhile [of isspace s] by simp
qed

lemma str_strip_last:
  assumes "str_strip s \<noteq> []"
  shows "\<not> isspace (last (str_strip s))"
  using assms str_rstrip_last [of "str_lstrip s"] by (simp add: str_strip_def)

lemma str_strip_id:
  assumes "s \<noteq> []" and "\<not> isspace (hd s)" and "\<not> isspace (last s)"
  shows "str_strip s = s"
proof -
  have "str_lstrip s = s"
    using assms(1,2) by (cases s) (auto simp: str_lstrip_def)
  then show ?thesis
    using assms(3) by (simp add: str_strip_def str_rstrip_id)
qed

lemma str_strip_idem: "str_strip (str_strip s) = str_strip s"
proof (cases "str_strip s = []")
  case True
  have "str_strip [] = []"
    by (simp add: str_strip_def str_lstrip_def str_rstrip_def)
  with True show ?thesis by simp
next
  case False
  then show ?thesis
    by (intro str_strip_id str_strip_hd str_strip_last)
qed

lemma str_rstrip_chars_id:
  assumes "\<forall>c\<in>set chars. c \<notin> set s"
  shows "str_rstrip_chars chars s = s"
proof -
  have "dropWhile (\<lambda>c. c \<in> set chars) (rev s) = rev s"
  proof (cases "rev s")
    case Nil
    then show ?thesis by simp
  next
    case (Cons x xs)
    then have "x \<in> set s"
      by (metis list.set_intros(1) set_rev)
    with assms have "x \<notin> set chars" by blast
    with Cons show ?thesis by simp
  qed
  then show ?thesis by (simp add: str_rstrip_chars_def)
qed

lemma set_token_matches:
  "tok \<in> set (token_matches s) \<Longrightarrow> set tok \<subseteq> set s"
proof (induction s arbitrary: tok rule: token_matches.induct)
  case 1
  then show ?case by simp
next
  case (2 c cs)
  have t: "set (takeWhile P cs) \<subseteq> set cs" for P
    by (auto dest: set_takeWhileD)
  have d: "set (dropWhile P cs) \<subseteq> set cs" for P
    by (auto dest: set_dropWhileD)
  have td: "set (tl (dropWhile P cs)) \<subseteq> set cs" for P
    by (rule set_tl_dropWhile)
  consider (q1) "c = CHR 0x27 \<and> CHR 0x27 \<in> set cs"
    | (q2) "\<not> (c = CHR 0x27 \<and> CHR 0x27 \<in> set cs)" "c = CHR 0x22 \<and> CHR 0x22 \<in> set cs"
    | (run) "\<not> (c = CHR 0x27 \<and> CHR 0x27 \<in> set cs)" "\<not> (c = CHR 0x22 \<and> CHR 0x22 \<in> set cs)"
        "\<not> isspace c"
    | (ws) "\<not> (c = CHR 0x27 \<and> CHR 0x27 \<in> set cs)" "\<not> (c = CHR 0x22 \<and> CHR 0x22 \<in> set cs)"
        "isspace c"
    by blast
  then show ?case
  proof cases
    case q1
    with "2.prems" have "tok = takeWhile (\<lambda>x. x \<noteq> CHR 0x27) cs \<or>
        tok \<in> set (token_matches (tl (dropWhile (\<lambda>x. x \<noteq> CHR 0x27) cs)))"
      by simp
    then show ?thesis
      using "2.IH"(1) [OF q1] t [of "\<lambda>x. x \<noteq> CHR 0x27"] td [of "\<lambda>x. x \<noteq> CHR 0x27"]
      by (metis dual_order.trans set_subset_Cons)
  next
    case q2
    with "2.prems" have "tok = takeWhile (\<lambda>x. x \<noteq> CHR 0x22) cs \<or>
        tok \<in> set (token_matches (tl (dropWhile (\<lambda>x. x \<noteq> CHR 0x22) cs)))"
      by auto
    then show ?thesis
      using "2.IH"(2) [OF q2] t [of "\<lambda>x. x \<noteq> CHR 0x22"] td [of "\<lambda>x. x \<noteq> CHR 0x22"]
      by (metis dual_order.trans set_subset_Cons)
  next
    case run
    with "2.prems" have "tok = c # takeWhile (\<lambda>x. \<not> isspace x) cs \<or>
        tok \<in> set (token_matches (dropWhile (\<lambda>x. \<not> isspace x) cs))"
      by auto
    then show ?thesis
    proof
      assume "tok = c # takeWhile (\<lambda>x. \<not> isspace x) cs"
      then show ?thesis
        using t [of "\<lambda>x. \<not> isspace x"] by auto
    next
      assume "tok \<in> set (token_matches (dropWhile (\<lambda>x. \<not> isspace x) cs))"
      then have "set tok \<subseteq> set (dropWhile (\<lambda>x. \<not> isspace x) cs)"
        by (rule "2.IH"(3) [OF run])
      then show ?thesis
        using d [of "\<lambda>x. \<not> isspace x"] by auto
    qed
  next
    case ws
    with "2.prems" have "tok \<in> set (token_matches cs)"
      by auto
    with ws have "set tok \<subseteq> set cs"
      using "2.IH"(4) [of tok] by blast
    then show ?thesis by auto
  qed
qed

section \<open>The labels of the extractors are clean\<close>

lemma set_str_splitlines:
  "line \<in> set (str_splitlines s) \<Longrightarrow> set line \<subseteq> set s"
proof (induction s arbitrary: line rule: str_splitlines.induct)
  case 1
  then show ?case by simp
next
  case (2 c cs)
  show ?case
  proof (cases "is_linebreak c")
    case True
    let ?rest = "if c = CHR 0x0D \<and> take 1 cs = [CHR 0x0A] then tl cs else cs"
    have sub: "set ?rest \<subseteq> set cs"
      by (cases cs) auto
    from True "2.prems" have "line = [] \<or> line \<in> set (str_splitlines ?rest)"
      by auto
    then show ?thesis
    proof
      assume "line = []"
      then show ?thesis by simp
    next
      assume "line \<in> set (str_splitlines ?rest)"
      then have "set line \<subseteq> set ?rest"
        using "2.IH"(1) [of line] True by blast
      with sub show ?thesis by auto
    qed
  next
    case False
    show ?thesis
    proof (cases "dropWhile (\<lambda>x. \<not> is_linebreak x) cs")
      case Nil
      with False "2.prems" have "line = c # takeWhile (\<lambda>x. \<not> is_linebreak x) cs"
        by simp
      then show ?thesis
        by (auto dest: set_takeWhileD)
    next
      case (Cons b bs)
      let ?rest = "if b = CHR 0x0D \<and> take 1 bs = [CHR 0x0A] then tl bs else bs"
      have "set ?rest \<subseteq> set bs"
        by (cases bs) auto
      moreover have "set (b # bs) \<subseteq> set cs"
        using set_dropWhileD [of _ "\<lambda>x. \<not> is_linebreak x" cs] Cons by (metis subsetI)
      ultimately have sub: "set ?rest \<subseteq> set cs"
        by auto
      from False Cons "2.prems" have "line = c # takeWhile (\<lambda>x. \<not> is_linebreak x) cs \<or>
          line \<in> set (str_splitlines ?rest)"
        by simp
      then show ?thesis
      proof
        assume "line = c # takeWhile (\<lambda>x. \<not> is_linebreak x) cs"
        then show ?thesis
          by (auto dest: set_takeWhileD)
      next
        assume "line \<in> set (str_splitlines ?rest)"
        then have "set line \<subseteq> set ?rest"
          using "2.IH"(2) [of b bs line] False Cons by blast
        with sub show ?thesis by auto
      qed
    qed
  qed
qed

lemma tokenize_subset: "tok \<in> set (tokenize s) \<Longrightarrow> set tok \<subseteq> set s"
  unfolding tokenize_def using set_token_matches [of tok "str_strip s"] set_str_strip [of s]
  by blast

lemma row_label_subset:
  assumes "row_label raw = Some tok"
  shows "set tok \<subseteq> set raw"
proof -
  from assms have "tok \<in> set (tokenize (str_strip raw))"
    by (auto simp: row_label_def Let_def split: if_splits list.splits)
  then show ?thesis
    using tokenize_subset [of tok "str_strip raw"] set_str_strip [of raw] by blast
qed

lemma matrix_rows_subset:
  assumes "tok \<in> set (matrix_rows ls [])"
  shows "\<exists>raw\<in>set ls. set tok \<subseteq> set raw"
proof -
  from assms obtain raw where "raw \<in> set ls" "row_label raw = Some tok"
    by (auto simp: matrix_rows_map_filter List.map_filter_def)
  then show ?thesis
    using row_label_subset by blast
qed

lemma parse_matrix_block_no_semicolon:
  assumes "tok \<in> set (parse_matrix_block t)"
  shows "CHR '';'' \<notin> set tok"
proof -
  from assms obtain midx where m: "str_find ''matrix'' (str_lower t) = Some midx"
    by (cases "str_find ''matrix'' (str_lower t)") (auto simp: parse_matrix_block_def)
  define sub0 where "sub0 = drop (midx + length ''matrix'') t"
  define sub where "sub = (if CHR '';'' \<in> set sub0 then takeWhile (\<lambda>c. c \<noteq> CHR '';'') sub0 else sub0)"
  have ns: "CHR '';'' \<notin> set sub"
    unfolding sub_def by (auto dest: set_takeWhileD)
  have "parse_matrix_block t = matrix_rows (str_splitlines sub) []"
    unfolding parse_matrix_block_def sub_def sub0_def Let_def m by simp
  with assms have "tok \<in> set (matrix_rows (str_splitlines sub) [])"
    by simp
  then obtain raw where "raw \<in> set (str_splitlines sub)" "set tok \<subseteq> set raw"
    using matrix_rows_subset by blast
  with ns show ?thesis
    using set_str_splitlines [of raw sub] by blast
qed

lemma set_remove_taxlabels: "set (remove_taxlabels s) \<subseteq> set s"
  unfolding remove_taxlabels_def by (auto dest: in_set_dropD)

lemma parse_taxlabels_block_no_semicolon:
  assumes "tok \<in> set (parse_taxlabels_block t)"
  shows "CHR '';'' \<notin> set tok"
proof -
  from assms obtain idx where i: "str_find ''taxlabels'' (str_lower t) = Some idx"
    by (cases "str_find ''taxlabels'' (str_lower t)") (auto simp: parse_taxlabels_block_def)
  define sub where "sub = takeWhile (\<lambda>c. c \<noteq> CHR '';'') (drop idx t)"
  have ns: "CHR '';'' \<notin> set sub"
    unfolding sub_def by (auto dest: set_takeWhileD)
  from assms i have "tok \<in> set (tokenize (str_strip (remove_taxlabels sub)))"
    by (auto simp: parse_taxlabels_block_def sub_def Let_def split: if_splits)
  then have "set tok \<subseteq> set sub"
    using tokenize_subset [of tok "str_strip (remove_taxlabels sub)"]
      set_str_strip [of "remove_taxlabels sub"] set_remove_taxlabels [of sub] by blast
  with ns show ?thesis by blast
qed

lemma clean_labels_clean:
  assumes "\<forall>l\<in>taxa. CHR '';'' \<notin> set l" and "l \<in> clean_labels taxa"
  shows "l \<noteq> [] \<and> str_strip l = l \<and> CHR '';'' \<notin> set l \<and> str_rstrip_chars '';'' l = l"
proof -
  from assms(2) obtain l0 where l0: "l0 \<in> taxa" "str_strip l0 \<noteq> []"
      "l = str_rstrip_chars '';'' (str_strip l0)"
    by (auto simp: clean_labels_def)
  with assms(1) have ns: "CHR '';'' \<notin> set (str_strip l0)"
    using set_str_strip [of l0] by blast
  then have "str_rstrip_chars '';'' (str_strip l0) = str_strip l0"
    by (intro str_rstrip_chars_id) simp
  with l0 ns show ?thesis
    by (simp add: str_strip_idem)
qed

lemma parse_nexus_text_clean:
  assumes "l \<in> parse_nexus_text raw"
  shows "l \<noteq> [] \<and> str_strip l = l \<and> CHR '';'' \<notin> set l \<and> str_rstrip_chars '';'' l = l"
proof (cases "parse_taxlabels_block (strip_nexus_comments raw) = []")
  case True
  with assms have "l \<in> clean_labels (set (parse_matrix_block (strip_nexus_comments raw)))"
    by (simp add: parse_nexus_text_def Let_def)
  then show ?thesis
    using clean_labels_clean parse_matrix_block_no_semicolon by blast
next
  case False
  with assms have "l \<in> clean_labels (set (parse_taxlabels_block (strip_nexus_comments raw)))"
    by (simp add: parse_nexus_text_def Let_def)
  then show ?thesis
    using clean_labels_clean parse_taxlabels_block_no_semicolon by blast
qed

lemma first_token_clean:
  assumes "str_strip r \<noteq> []"
  shows "first_token r \<noteq> [] \<and> (\<forall>c\<in>set (first_token r). \<not> isspace c)"
proof -
  obtain rest where "str_split (str_strip r) = first_token r # rest"
    using str_split_strip_first [OF assms] by blast
  obtain c a where ca: "str_strip r = c # a"
    using assms by (cases "str_strip r") auto
  have "\<not> isspace c"
    using str_strip_hd [OF assms] ca by simp
  with ca \<open>str_split (str_strip r) = first_token r # rest\<close> have "first_token r \<noteq> []"
    by auto
  moreover have "\<forall>c\<in>set (first_token r). \<not> isspace c"
    unfolding first_token_def by (auto dest: set_takeWhileD)
  ultimately show ?thesis by blast
qed

lemma no_space_strip_id:
  assumes "l \<noteq> []" and "\<forall>c\<in>set l. \<not> isspace c"
  shows "str_strip l = l"
  using assms by (intro str_strip_id) auto

lemma fasta_labels_clean:
  assumes "l \<in> fasta_labels_spec t"
  shows "l \<noteq> [] \<and> str_strip l = l \<and> (\<forall>c\<in>set l. \<not> isspace c)"
proof -
  from assms obtain line where "l = first_token (drop 1 line)" "str_strip (drop 1 line) \<noteq> []"
    by (auto simp: fasta_labels_spec_def)
  then have a: "l \<noteq> [] \<and> (\<forall>c\<in>set l. \<not> isspace c)"
    using first_token_clean [of "drop 1 line"] by simp
  then have "str_strip l = l"
    by (intro no_space_strip_id) simp_all
  with a show ?thesis by simp
qed

lemma parse_nexus_taxa_clean:
  assumes "parse_nexus_taxa f = Inr S" and "l \<in> S"
  shows "l \<noteq> [] \<and> str_strip l = l \<and> CHR '';'' \<notin> set l \<and> str_rstrip_chars '';'' l = l"
proof -
  from assms(1) obtain raw where "S = parse_nexus_text raw"
    by (auto simp: parse_nexus_taxa_def split: sum.splits)
  with assms(2) show ?thesis
    using parse_nexus_text_clean by blast
qed

lemma parse_fasta_taxa_clean:
  assumes "parse_fasta_taxa f = Inr S" and "l \<in> S"
  shows "l \<noteq> [] \<and> str_strip l = l \<and> (\<forall>c\<in>set l. \<not> isspace c)"
proof -
  from assms(1) obtain t where "utf8_text f = Inr t"
    by (cases "utf8_text f") (auto simp: parse_fasta_taxa_def)
  with assms(1) have "S = fasta_labels_spec t"
    using parse_fasta_taxa_text [of f t] by simp
  with assms(2) show ?thesis
    using fasta_labels_clean by blast
qed

lemma gather_loop_clean:
  assumes "gather_loop fs strict_mode v ps taxa log = (Inr T, log')"
    and "\<forall>l\<in>taxa. l \<noteq> [] \<and> str_strip l = l"
  shows "\<forall>l\<in>T. l \<noteq> [] \<and> str_strip l = l"
  using assms
proof (induction ps arbitrary: taxa log)
  case Nil
  then show ?case by simp
next
  case (Cons p ps)
  show ?case
  proof (cases "detect_format_from_content (fs p)")
    case Fasta
    show ?thesis
    proof (cases "parse_fasta_taxa (fs p)")
      case (Inl e)
      with Fasta Cons.prems(1) have "gather_loop fs strict_mode v ps taxa (log @ [Warning p e]) = (Inr T, log')"
        by (auto simp: Let_def split: if_splits)
      then show ?thesis
        using Cons.IH Cons.prems(2) by blast
    next
      case (Inr ts)
      with Fasta Cons.prems(1) have "gather_loop fs strict_mode v ps (taxa \<union> ts)
          (log @ (if v then [FileOk p (card ts)] else [])) = (Inr T, log')"
        by (simp add: Let_def)
      moreover have "\<forall>l\<in>taxa \<union> ts. l \<noteq> [] \<and> str_strip l = l"
        using Cons.prems(2) parse_fasta_taxa_clean [OF Inr] by blast
      ultimately show ?thesis
        using Cons.IH by blast
    qed
  next
    case Nexus
    show ?thesis
    proof (cases "parse_nexus_taxa (fs p)")
      case (Inl e)
      with Nexus Cons.prems(1) have "gather_loop fs strict_mode v ps taxa (log @ [Warning p e]) = (Inr T, log')"
        by (auto simp: Let_def split: if_splits)
      then show ?thesis
        using Cons.IH Cons.prems(2) by blast
    next
      case (Inr ts)
      with Nexus Cons.prems(1) have "gather_loop fs strict_mode v ps (taxa \<union> ts)
          (log @ (if v then [FileOk p (card ts)] else [])) = (Inr T, log')"
        by (simp add: Let_def)
      moreover have "\<forall>l\<in>taxa \<union> ts. l \<noteq> [] \<and> str_strip l = l"
        using Cons.prems(2) parse_nexus_taxa_clean [OF Inr] by blast
      ultimately show ?thesis
        using Cons.IH by blast
    qed
  next
    case Unknown
    with Cons.prems(1) have "gather_loop fs strict_mode v ps taxa
        (log @ (if v then [Ignored p] else [])) = (Inr T, log')"
      by (auto simp: Let_def split: if_splits)
    then show ?thesis
      using Cons.IH Cons.prems(2) by blast
  qed
qed

text \<open>
  C2 as stated fails for the FASTA extractor, which takes the first token of a header as
  it is: a header token that ends in a semicolon reaches the final set with the
  semicolon.
\<close>

theorem taxon_labels_clean_counterexample:
  "\<not> (\<forall>fs ps strict_mode v T. fst (gather_taxa fs ps strict_mode v) = Inr T \<longrightarrow>
         (\<forall>l\<in>T. l \<noteq> [] \<and> str_strip l = l \<and> str_rstrip_chars '';'' l = l))"
proof
  assume h: "\<forall>fs ps strict_mode v T. fst (gather_taxa fs ps strict_mode v) = Inr T \<longrightarrow>
         (\<forall>l\<in>T. l \<noteq> [] \<and> str_strip l = l \<and> str_rstrip_chars '';'' l = l)"
  have a: "fst (gather_taxa (\<lambda>p. demo_semicolon) [''x.fasta''] False False) = Inr {''taxA;''}"
    by code_simp
  have b: "str_rstrip_chars '';'' ''taxA;'' = ''taxA''"
    by code_simp
  from h a have "str_rstrip_chars '';'' ''taxA;'' = ''taxA;''"
    by blast
  with b show False by simp
qed

text \<open>
  C2, amended. Every label in the final set of a scan is not empty and has no white space
  at either end. A label of the NEXUS extractor moreover contains no semicolon at all, so
  stripping trailing semicolons leaves it as it is; a label of the FASTA extractor
  contains no white space at all, and keeps a final semicolon of its header token.
\<close>

theorem taxon_labels_clean:
  "(parse_nexus_taxa f = Inr S \<longrightarrow>
      (\<forall>l\<in>S. l \<noteq> [] \<and> str_strip l = l \<and> CHR '';'' \<notin> set l \<and> str_rstrip_chars '';'' l = l)) \<and>
   (parse_fasta_taxa f = Inr S \<longrightarrow>
      (\<forall>l\<in>S. l \<noteq> [] \<and> str_strip l = l \<and> (\<forall>c\<in>set l. \<not> isspace c))) \<and>
   (fst (gather_taxa fs ps strict_mode v) = Inr T \<longrightarrow> (\<forall>l\<in>T. l \<noteq> [] \<and> str_strip l = l))"
proof (intro conjI impI ballI)
  fix l
  assume "parse_nexus_taxa f = Inr S" "l \<in> S"
  then show "l \<noteq> []" "str_strip l = l" "CHR '';'' \<notin> set l" "str_rstrip_chars '';'' l = l"
    using parse_nexus_taxa_clean by blast+
next
  fix l
  assume "parse_fasta_taxa f = Inr S" "l \<in> S"
  then show "l \<noteq> []" "str_strip l = l"
    using parse_fasta_taxa_clean by blast+
next
  fix l c
  assume "parse_fasta_taxa f = Inr S" "l \<in> S" "c \<in> set l"
  then show "\<not> isspace c"
    using parse_fasta_taxa_clean by blast
next
  fix l
  assume a: "fst (gather_taxa fs ps strict_mode v) = Inr T" "l \<in> T"
  obtain log' where "gather_loop fs strict_mode v ps {} [] = (Inr T, log')"
    using a(1) by (cases "gather_loop fs strict_mode v ps {} []") (auto simp: gather_taxa_def)
  then have "\<forall>l\<in>T. l \<noteq> [] \<and> str_strip l = l"
    by (rule gather_loop_clean) simp
  with a(2) show "l \<noteq> []" "str_strip l = l"
    by blast+
qed

theorem taxon_labels_clean_witness:
  "parse_nexus_taxa (demo_files ''c.nex'') = Inr {''taxA'', ''taxC''} \<and>
   str_strip ''taxC'' = ''taxC'' \<and> CHR '';'' \<notin> set ''taxC'' \<and>
   parse_fasta_taxa demo_semicolon = Inr {''taxA;''} \<and>
   str_strip ''taxA;'' = ''taxA;'' \<and>
   fst (gather_taxa demo_files [''a.fasta'', ''b.nex'', ''c.nex''] False False) =
     Inr {''taxA'', ''taxB'', ''taxC''} \<and>
   str_strip ''taxB'' = ''taxB''"
proof -
  have a: "parse_nexus_taxa (demo_files ''c.nex'') = Inr {''taxA'', ''taxC''}"
    by code_simp
  have b: "parse_fasta_taxa demo_semicolon = Inr {''taxA;''}"
    by code_simp
  have c: "fst (gather_taxa demo_files [''a.fasta'', ''b.nex'', ''c.nex''] False False) =
     Inr {''taxA'', ''taxB'', ''taxC''}"
    by code_simp
  from taxon_labels_clean [of "demo_files ''c.nex''" "{''taxA'', ''taxC''}"] a
  have 1: "str_strip ''taxC'' = ''taxC'' \<and> CHR '';'' \<notin> set ''taxC''"
    by blast
  from taxon_labels_clean [of demo_semicolon "{''taxA;''}"] b
  have 2: "str_strip ''taxA;'' = ''taxA;''"
    by blast
  from taxon_labels_clean [of _ _ demo_files "[''a.fasta'', ''b.nex'', ''c.nex'']" False False
      "{''taxA'', ''taxB'', ''taxC''}"] c
  have 3: "str_strip ''taxB'' = ''taxB''"
    by blast
  from a b c 1 2 3 show ?thesis by blast
qed

section \<open>Quoted and unquoted names in a TAXLABELS block\<close>

lemma isspace_not_quote: "isspace c \<Longrightarrow> c \<noteq> CHR 0x27 \<and> c \<noteq> CHR 0x22 \<and> c \<noteq> CHR '';''"
  by (auto simp: isspace_def)

lemma token_matches_leading_space:
  "\<forall>c\<in>set ws. isspace c \<Longrightarrow> token_matches (ws @ xs) = token_matches xs"
proof (induction ws)
  case Nil
  show ?case by simp
next
  case (Cons c ws)
  then have "isspace c" by simp
  with Cons show ?case
    using isspace_not_quote [of c] by simp
qed

lemma dropWhile_append_stop:
  assumes "\<forall>x\<in>set ws. \<not> P x"
  shows "dropWhile P (xs @ ws) = dropWhile P xs @ ws"
proof (induction xs)
  case Nil
  from assms show ?case by (cases ws) auto
next
  case (Cons x xs)
  then show ?case by simp
qed

lemma token_matches_trailing_space:
  assumes "\<forall>c\<in>set ws. isspace c"
  shows "token_matches (xs @ ws) = token_matches xs"
proof (induction xs rule: token_matches.induct)
  case 1
  show ?case
    using token_matches_leading_space [OF assms, of "[]"] by simp
next
  case (2 c cs)
  have nq: "CHR 0x27 \<notin> set ws" "CHR 0x22 \<notin> set ws"
    using assms isspace_not_quote by blast+
  have tk: "takeWhile (\<lambda>x. \<not> isspace x) (cs @ ws) = takeWhile (\<lambda>x. \<not> isspace x) cs"
    using assms by (intro takeWhile_append_stop) simp
  have dr: "dropWhile (\<lambda>x. \<not> isspace x) (cs @ ws) = dropWhile (\<lambda>x. \<not> isspace x) cs @ ws"
    using assms by (intro dropWhile_append_stop) simp
  have q: "q \<in> set cs \<Longrightarrow>
      takeWhile (\<lambda>x. x \<noteq> q) (cs @ ws) = takeWhile (\<lambda>x. x \<noteq> q) cs \<and>
      tl (dropWhile (\<lambda>x. x \<noteq> q) (cs @ ws)) = tl (dropWhile (\<lambda>x. x \<noteq> q) cs) @ ws" for q
  proof -
    assume a: "q \<in> set cs"
    then have "dropWhile (\<lambda>x. x \<noteq> q) cs \<noteq> []"
      by (simp add: dropWhile_eq_Nil_conv)
    with a show ?thesis
      by (simp add: takeWhile_append1 dropWhile_append1)
  qed
  consider (q1) "c = CHR 0x27 \<and> CHR 0x27 \<in> set cs"
    | (q2) "\<not> (c = CHR 0x27 \<and> CHR 0x27 \<in> set cs)" "c = CHR 0x22 \<and> CHR 0x22 \<in> set cs"
    | (run) "\<not> (c = CHR 0x27 \<and> CHR 0x27 \<in> set cs)" "\<not> (c = CHR 0x22 \<and> CHR 0x22 \<in> set cs)"
        "\<not> isspace c"
    | (sp) "\<not> (c = CHR 0x27 \<and> CHR 0x27 \<in> set cs)" "\<not> (c = CHR 0x22 \<and> CHR 0x22 \<in> set cs)"
        "isspace c"
    by blast
  then show ?case
  proof cases
    case q1
    then show ?thesis
      using "2.IH"(1) q [of "CHR 0x27"] by simp
  next
    case q2
    then show ?thesis
      using "2.IH"(2) q [of "CHR 0x22"] nq by auto
  next
    case run
    then show ?thesis
      using "2.IH"(3) tk dr nq by auto
  next
    case sp
    then show ?thesis
      using "2.IH"(4) nq by auto
  qed
qed

lemma token_matches_str_strip: "token_matches (str_strip x) = token_matches x"
proof -
  obtain ws where ws: "str_lstrip x = str_strip x @ ws" "\<forall>c\<in>set ws. isspace c"
    using str_rstrip_decomp [of "str_lstrip x"] by (auto simp: str_strip_def)
  have "x = takeWhile isspace x @ str_lstrip x"
    by (simp add: str_lstrip_def)
  moreover have "\<forall>c\<in>set (takeWhile isspace x). isspace c"
    by (auto dest: set_takeWhileD)
  ultimately have "token_matches x = token_matches (str_lstrip x)"
    using token_matches_leading_space [of "takeWhile isspace x" "str_lstrip x"] by simp
  also have "\<dots> = token_matches (str_strip x)"
    using token_matches_trailing_space [OF ws(2), of "str_strip x"] ws(1) by simp
  finally show ?thesis by simp
qed

lemma tokenize_token_matches: "tokenize x = token_matches x"
  by (simp add: tokenize_def token_matches_str_strip)

lemma run_then_stop:
  assumes "\<forall>x\<in>set a. P x" and "b = [] \<or> \<not> P (hd b)"
  shows "takeWhile P (a @ b) = a" and "dropWhile P (a @ b) = b"
proof -
  have "takeWhile P b = []" "dropWhile P b = b"
    using assms(2) by (cases b; auto)+
  with assms(1) show "takeWhile P (a @ b) = a" "dropWhile P (a @ b) = b"
    by (simp_all add: takeWhile_append2 dropWhile_append2)
qed

lemma token_matches_quoted:
  assumes "q = CHR 0x27 \<or> q = CHR 0x22" and "q \<notin> set s"
  shows "token_matches (q # s @ q # rest) = s # token_matches rest"
proof -
  have "takeWhile (\<lambda>x. x \<noteq> q) (s @ q # rest) = s" "dropWhile (\<lambda>x. x \<noteq> q) (s @ q # rest) = q # rest"
    using assms(2) by (intro run_then_stop; auto)+
  moreover have "q \<in> set (s @ q # rest)" by simp
  ultimately show ?thesis
    using assms(1) by (cases "q = CHR 0x27") auto
qed

lemma token_matches_unquoted:
  assumes "s \<noteq> []" and "\<forall>c\<in>set s. \<not> isspace c" and "hd s \<noteq> CHR 0x27" and "hd s \<noteq> CHR 0x22"
    and "rest = [] \<or> isspace (hd rest)"
  shows "token_matches (s @ rest) = s # token_matches rest"
proof -
  obtain c s' where s: "s = c # s'"
    using assms(1) by (cases s) auto
  have "takeWhile (\<lambda>x. \<not> isspace x) (s' @ rest) = s'" "dropWhile (\<lambda>x. \<not> isspace x) (s' @ rest) = rest"
    using assms(2,5) s by (intro run_then_stop; auto)+
  with assms(2-4) s show ?thesis by simp
qed

lemma token_matches_block_body:
  "valid_block names \<Longrightarrow> token_matches (block_body names) = map (\<lambda>p. name_of (fst p)) names"
proof (induction names rule: block_body.induct)
  case 1
  show ?case by simp
next
  case (2 n sep rest)
  then have IH: "token_matches (block_body rest) = map (\<lambda>p. name_of (fst p)) rest"
    and sep: "\<forall>c\<in>set sep. isspace c" and n: "valid_name n"
    and adj: "sep = [] \<longrightarrow> \<not> is_unquoted n \<or> rest = []"
    by (simp_all add: list_all_iff)
  have after: "token_matches (sep @ block_body rest) = token_matches (block_body rest)"
    using sep by (rule token_matches_leading_space)
  show ?case
  proof (cases n)
    case (SingleQuoted s)
    with n have "token_matches (CHR 0x27 # s @ CHR 0x27 # sep @ block_body rest) =
        s # token_matches (sep @ block_body rest)"
      by (intro token_matches_quoted) simp_all
    with SingleQuoted after IH show ?thesis by simp
  next
    case (DoubleQuoted s)
    with n have "token_matches (CHR 0x22 # s @ CHR 0x22 # sep @ block_body rest) =
        s # token_matches (sep @ block_body rest)"
      by (intro token_matches_quoted) simp_all
    with DoubleQuoted after IH show ?thesis by simp
  next
    case (Unquoted s)
    have "sep @ block_body rest = [] \<or> isspace (hd (sep @ block_body rest))"
    proof (cases sep)
      case Nil
      with adj Unquoted show ?thesis by simp
    next
      case (Cons c cs)
      with sep show ?thesis by simp
    qed
    with n Unquoted have "token_matches (s @ sep @ block_body rest) =
        s # token_matches (sep @ block_body rest)"
      by (intro token_matches_unquoted) (simp_all add: list_all_iff)
    with Unquoted after IH show ?thesis by simp
  qed
qed

lemma valid_name_label:
  assumes "valid_name n"
  shows "name_of n \<noteq> [] \<and> str_strip (name_of n) = name_of n \<and> CHR '';'' \<notin> set (name_of n)"
proof (cases n)
  case (Unquoted s)
  with assms have "s \<noteq> []" "\<forall>c\<in>set s. \<not> isspace c" "CHR '';'' \<notin> set s"
    by (simp_all add: list_all_iff)
  with Unquoted show ?thesis
    using no_space_strip_id [of s] by simp
qed (use assms in simp_all)

lemma valid_block_names:
  "valid_block names \<Longrightarrow> p \<in> set names \<Longrightarrow> valid_name (fst p)"
  by (induction names rule: valid_block.induct) auto

lemma block_body_no_semicolon:
  "valid_block names \<Longrightarrow> CHR '';'' \<notin> set (block_body names)"
proof (induction names rule: block_body.induct)
  case 1
  show ?case by simp
next
  case (2 n sep rest)
  then have "CHR '';'' \<notin> set (block_body rest)" "\<forall>c\<in>set sep. isspace c" "valid_name n"
    by (simp_all add: list_all_iff)
  moreover from this have "CHR '';'' \<notin> set sep"
    using isspace_not_quote by blast
  moreover have "CHR '';'' \<notin> set (written_name n)"
    using \<open>valid_name n\<close> by (cases n) simp_all
  ultimately show ?case by simp
qed

lemma lower_char_semicolon: "lower_char CHR '';'' = CHR '';''"
  by (simp add: lower_char_def upper_letters_def lower_letters_def)

lemma keyword_shape:
  assumes "str_lower kw = ''taxlabels''"
  shows "length kw = 9" and "CHR '';'' \<notin> set kw"
proof -
  from assms have "length (map lower_char kw) = length ''taxlabels''"
    by (simp add: str_lower_def)
  then show "length kw = 9" by simp
  show "CHR '';'' \<notin> set kw"
  proof
    assume "CHR '';'' \<in> set kw"
    then have "lower_char CHR '';'' \<in> set (map lower_char kw)"
      by (simp del: set_map add: set_map image_iff) blast
    with assms show False
      by (simp add: str_lower_def lower_char_semicolon)
  qed
qed

lemma clean_labels_id:
  assumes "\<forall>l\<in>S. l \<noteq> [] \<and> str_strip l = l \<and> CHR '';'' \<notin> set l"
  shows "clean_labels S = S"
proof -
  have "str_rstrip_chars '';'' (str_strip l) = l" if "l \<in> S" for l
    using that assms str_rstrip_chars_id [of "'';''" l] by simp
  moreover have "{l \<in> S. str_strip l \<noteq> []} = S"
    using assms by auto
  ultimately show ?thesis
    by (simp add: clean_labels_def)
qed

lemma parse_taxlabels_block_names:
  assumes t: "t = pre @ kw @ lead @ block_body names @ CHR '';'' # post"
    and f: "str_find ''taxlabels'' (str_lower t) = Some (length pre)"
    and kw: "str_lower kw = ''taxlabels''"
    and lead: "\<forall>c\<in>set lead. isspace c"
    and v: "valid_block names"
  shows "parse_taxlabels_block t = map (\<lambda>p. name_of (fst p)) names"
proof -
  let ?inner = "kw @ lead @ block_body names"
  have sub: "drop (length pre) t = ?inner @ CHR '';'' # post"
    using t by simp
  have ns: "\<forall>c\<in>set ?inner. c \<noteq> CHR '';''"
    using keyword_shape(2) [OF kw] lead isspace_not_quote block_body_no_semicolon [OF v]
    by auto
  have cut: "takeWhile (\<lambda>c. c \<noteq> CHR '';'') (?inner @ CHR '';'' # post) = ?inner"
    using ns by (intro run_then_stop(1)) simp_all
  have "take (length ''taxlabels'') ?inner = kw" "drop (length ''taxlabels'') ?inner = lead @ block_body names"
    using keyword_shape(1) [OF kw] by simp_all
  then have rm: "remove_taxlabels ?inner = lead @ block_body names"
    using kw unfolding remove_taxlabels_def by simp
  have "parse_taxlabels_block t = tokenize (str_strip (remove_taxlabels ?inner))"
    unfolding parse_taxlabels_block_def f sub option.case Let_def cut by simp
  also have "\<dots> = token_matches (lead @ block_body names)"
    by (simp add: rm tokenize_token_matches token_matches_str_strip)
  also have "\<dots> = token_matches (block_body names)"
    using lead by (rule token_matches_leading_space)
  finally show ?thesis
    using token_matches_block_body [OF v] by simp
qed

lemma parse_nexus_text_names:
  assumes "strip_nexus_comments raw = pre @ kw @ lead @ block_body names @ CHR '';'' # post"
    and "str_find ''taxlabels'' (str_lower (strip_nexus_comments raw)) = Some (length pre)"
    and "str_lower kw = ''taxlabels''"
    and "\<forall>c\<in>set lead. isspace c"
    and "names \<noteq> []"
    and "valid_block names"
  shows "parse_nexus_text raw = set (map (\<lambda>p. name_of (fst p)) names)"
proof -
  have labels: "parse_taxlabels_block (strip_nexus_comments raw) = map (\<lambda>p. name_of (fst p)) names"
    using assms(1-4,6) by (rule parse_taxlabels_block_names)
  with assms(5) have "parse_nexus_text raw = clean_labels (set (map (\<lambda>p. name_of (fst p)) names))"
    by (simp add: parse_nexus_text_def Let_def)
  moreover have "\<forall>l\<in>set (map (\<lambda>p. name_of (fst p)) names).
      l \<noteq> [] \<and> str_strip l = l \<and> CHR '';'' \<notin> set l"
    using valid_block_names [OF assms(6)] valid_name_label by auto
  ultimately show ?thesis
    by (simp only: clean_labels_id)
qed

text \<open>
  C4. Let the text, once its comments are stripped, consist of any text, the keyword
  \<open>taxlabels\<close> in any case at its first occurrence, white space, a valid block of at least
  one name with quoted and unquoted names in any mixture, the terminating semicolon and
  any text. Then the NEXUS extractor returns exactly the set of the names, without their
  quotes and with the white space inside quoted names as it is written. In particular
  the block \<open>TAXLABELS 'tax one' taxB taxC;\<close> gives \<open>tax one\<close>, \<open>taxB\<close> and \<open>taxC\<close>.
\<close>

theorem taxlabels_block_names:
  "(strip_nexus_comments raw = pre @ kw @ lead @ block_body names @ CHR '';'' # post \<and>
    str_find ''taxlabels'' (str_lower (strip_nexus_comments raw)) = Some (length pre) \<and>
    str_lower kw = ''taxlabels'' \<and> list_all isspace lead \<and>
    names \<noteq> [] \<and> valid_block names \<longrightarrow>
      parse_nexus_text raw = set (map (\<lambda>p. name_of (fst p)) names)) \<and>
   parse_nexus_text ''TAXLABELS 'tax one' taxB taxC;'' = {''tax one'', ''taxB'', ''taxC''}"
proof (intro conjI impI)
  assume h: "strip_nexus_comments raw = pre @ kw @ lead @ block_body names @ CHR '';'' # post \<and>
    str_find ''taxlabels'' (str_lower (strip_nexus_comments raw)) = Some (length pre) \<and>
    str_lower kw = ''taxlabels'' \<and> list_all isspace lead \<and>
    names \<noteq> [] \<and> valid_block names"
  then have 1: "strip_nexus_comments raw = pre @ kw @ lead @ block_body names @ CHR '';'' # post"
    and 2: "str_find ''taxlabels'' (str_lower (strip_nexus_comments raw)) = Some (length pre)"
    and 3: "str_lower kw = ''taxlabels''"
    and 5: "names \<noteq> []" and 6: "valid_block names"
    by blast+
  from h have 4: "\<forall>c\<in>set lead. isspace c"
    by (simp add: list_all_iff)
  show "parse_nexus_text raw = set (map (\<lambda>p. name_of (fst p)) names)"
    by (rule parse_nexus_text_names [OF 1 2 3 4 5 6])
next
  show "parse_nexus_text ''TAXLABELS 'tax one' taxB taxC;'' = {''tax one'', ''taxB'', ''taxC''}"
    by code_simp
qed

theorem taxlabels_block_names_witness:
  "parse_nexus_text ''TAXLABELS 'tax one' taxB taxC;'' = {''tax one'', ''taxB'', ''taxC''} \<and>
   parse_nexus_text demo_nexus = {''tax two'', ''x  y'', ''taxZ'', ''O'Neil''}"
proof -
  let ?n1 = "[(SingleQuoted ''tax one'', '' ''), (Unquoted ''taxB'', '' ''), (Unquoted ''taxC'', [])]"
  have a1: "strip_nexus_comments ''TAXLABELS 'tax one' taxB taxC;'' =
      [] @ ''TAXLABELS'' @ '' '' @ block_body ?n1 @ CHR '';'' # []"
    by code_simp
  have b1: "str_find ''taxlabels'' (str_lower (strip_nexus_comments ''TAXLABELS 'tax one' taxB taxC;'')) =
      Some (length ([] :: string))"
    by code_simp
  have c1: "str_lower ''TAXLABELS'' = ''taxlabels''"
    by code_simp
  have d1: "list_all isspace '' ''"
    by code_simp
  have e1: "valid_block ?n1"
    by code_simp
  have f1: "set (map (\<lambda>p. name_of (fst p)) ?n1) = {''tax one'', ''taxB'', ''taxC''}"
    by simp
  let ?pre = "''#NEXUS\<newline>\<newline>Begin Taxa;\<newline>  ''"
  let ?post = "''\<newline>End;\<newline>Begin Data; Matrix\<newline>other ACGT\<newline>;End;''"
  have a2: "strip_nexus_comments demo_nexus =
      ?pre @ ''TaxLabels'' @ ''\<newline>   '' @ block_body demo_names @ CHR '';'' # ?post"
    by code_simp
  have b2: "str_find ''taxlabels'' (str_lower (strip_nexus_comments demo_nexus)) = Some (length ?pre)"
    by code_simp
  have c2: "str_lower ''TaxLabels'' = ''taxlabels''"
    by code_simp
  have d2: "list_all isspace ''\<newline>   ''"
    by code_simp
  have e2: "valid_block demo_names" "demo_names \<noteq> []"
    by code_simp+
  have f2: "set (map (\<lambda>p. name_of (fst p)) demo_names) = {''tax two'', ''x  y'', ''taxZ'', ''O'Neil''}"
    by (simp add: demo_names_def)
  from taxlabels_block_names [of "''TAXLABELS 'tax one' taxB taxC;''" "[]" "''TAXLABELS''" "'' ''" ?n1 "[]"]
    a1 b1 c1 d1 e1
  have 1: "parse_nexus_text ''TAXLABELS 'tax one' taxB taxC;'' = set (map (\<lambda>p. name_of (fst p)) ?n1)"
    by blast
  from taxlabels_block_names [of demo_nexus ?pre "''TaxLabels''" "''\<newline>   ''" demo_names ?post]
    a2 b2 c2 d2 e2
  have 2: "parse_nexus_text demo_nexus = set (map (\<lambda>p. name_of (fst p)) demo_names)"
    by blast
  from 1 2 show ?thesis
    unfolding f1 f2 by blast
qed

end
